theory Spec2Isabelle
  imports Complex_Main "HOL-Library.Log_Nat"
begin

section \<open>Overview\<close>

text \<open>
  Two extensions of a text editor are modelled: the goto-line dialog (its function
  \<^verbatim>\<open>go\<close>) and the highlighter of the matches of the selection
  (\<^verbatim>\<open>selection-match.ts\<close>, its functions \<^verbatim>\<open>wordAt\<close> and \<^verbatim>\<open>getDeco\<close>).

  The document is the host editor's \<^verbatim>\<open>Text\<close>: a sequence of code units in which lines
  are separated by a single line-break character that counts as one position. It is
  modelled as a \<open>string\<close>; the line structure is computed from it. Offsets, lengths and
  columns are \<open>nat\<close>, the line numbers of the document are \<open>int\<close>. The line that
  \<^verbatim>\<open>go\<close> computes from its input is a JavaScript number, with the rounding of
  double-precision arithmetic at every operation.
\<close>

section \<open>JavaScript numbers\<close>

text \<open>
  A JavaScript number is a double-precision floating-point value: a rational that the
  format represents, an infinity, or NaN. The sign of a zero is not kept; nothing in the
  code modelled here depends on it.
\<close>

datatype number = Num rat | PosInf | NegInf | NaN

text \<open>Rounding a rational to the nearest integer, a tie to the even neighbour.\<close>

definition rne :: "rat \<Rightarrow> int" where
  "rne x =
     (let f = \<lfloor>x\<rfloor>; r = x - of_int f in
      if r < 1 / 2 then f else if r > 1 / 2 then f + 1 else if even f then f else f + 1)"

text \<open>The exponent \<open>e\<close> of a positive rational: \<open>2 powi e \<le> x < 2 powi (e + 1)\<close>.\<close>

definition ilog2 :: "rat \<Rightarrow> int" where
  "ilog2 x = (if x \<ge> 1 then bitlen \<lfloor>x\<rfloor> - 1 else - bitlen (\<lceil>1 / x\<rceil> - 1))"

text \<open>
  \<open>fl\<close> is the number for a rational: the nearest double, a tie going to the even
  significand. A double has 53 significant bits; its exponent is at least \<open>-1022\<close>
  (below that the subnormal numbers have fewer bits) and at most 1023 (beyond that the
  result is an infinity).
\<close>

definition fl_exp :: "rat \<Rightarrow> int" where
  "fl_exp x = max (ilog2 \<bar>x\<bar>) (- 1022)"

definition fl_mant :: "rat \<Rightarrow> int" where
  "fl_mant x = rne (\<bar>x\<bar> / 2 powi (fl_exp x - 52))"

definition fl :: "rat \<Rightarrow> number" where
  "fl x =
     (if x = 0 then Num 0
      else if fl_exp x > 1023 \<or> (fl_exp x = 1023 \<and> fl_mant x \<ge> 2 ^ 53)
        then (if x > 0 then PosInf else NegInf)
      else Num ((if x > 0 then 1 else - 1) * (of_int (fl_mant x) * 2 powi (fl_exp x - 52))))"

text \<open>The arithmetic operators \<^verbatim>\<open>+\<close>, \<^verbatim>\<open>*\<close> and \<^verbatim>\<open>/\<close> on numbers.\<close>

fun is_neg :: "number \<Rightarrow> bool" where
  "is_neg (Num x) = (x < 0)"
| "is_neg NegInf = True"
| "is_neg PosInf = False"
| "is_neg NaN = False"

definition num_add :: "number \<Rightarrow> number \<Rightarrow> number" where
  "num_add a b =
     (case a of
        NaN \<Rightarrow> NaN
      | Num x \<Rightarrow> (case b of Num y \<Rightarrow> fl (x + y) | _ \<Rightarrow> b)
      | _ \<Rightarrow> (case b of NaN \<Rightarrow> NaN | Num y \<Rightarrow> a | _ \<Rightarrow> if a = b then a else NaN))"

definition num_mul :: "number \<Rightarrow> number \<Rightarrow> number" where
  "num_mul a b =
     (case (a, b) of
        (Num x, Num y) \<Rightarrow> fl (x * y)
      | _ \<Rightarrow> if a = NaN \<or> b = NaN \<or> a = Num 0 \<or> b = Num 0 then NaN
             else if is_neg a = is_neg b then PosInf else NegInf)"

definition num_div :: "number \<Rightarrow> number \<Rightarrow> number" where
  "num_div a b =
     (case a of
        NaN \<Rightarrow> NaN
      | Num x \<Rightarrow>
          (case b of
             NaN \<Rightarrow> NaN
           | Num y \<Rightarrow>
               if y = 0 then (if x = 0 then NaN else if x > 0 then PosInf else NegInf)
               else fl (x / y)
           | _ \<Rightarrow> Num 0)
      | _ \<Rightarrow>
          (case b of
             Num y \<Rightarrow> if is_neg a = (y < 0) then PosInf else NegInf
           | _ \<Rightarrow> NaN))"

text \<open>
  \<^verbatim>\<open>Math.round\<close> returns the nearest integer, a tie going upwards; it is exact.
  \<^verbatim>\<open>Math.min\<close> and \<^verbatim>\<open>Math.max\<close> return NaN when an argument is NaN.
\<close>

definition Math_round :: "number \<Rightarrow> number" where
  "Math_round a = (case a of Num x \<Rightarrow> Num (of_int \<lfloor>x + 1 / 2\<rfloor>) | _ \<Rightarrow> a)"

definition Math_min :: "number \<Rightarrow> number \<Rightarrow> number" where
  "Math_min a b =
     (if a = NaN \<or> b = NaN then NaN
      else if a = NegInf \<or> b = NegInf then NegInf
      else (case a of
              Num x \<Rightarrow> (case b of Num y \<Rightarrow> Num (min x y) | _ \<Rightarrow> a)
            | _ \<Rightarrow> b))"

definition Math_max :: "number \<Rightarrow> number \<Rightarrow> number" where
  "Math_max a b =
     (if a = NaN \<or> b = NaN then NaN
      else if a = PosInf \<or> b = PosInf then PosInf
      else (case a of
              Num x \<Rightarrow> (case b of Num y \<Rightarrow> Num (max x y) | _ \<Rightarrow> a)
            | _ \<Rightarrow> b))"

section \<open>The editor state the two extensions read\<close>

datatype error = RangeError

record Line =
  lfrom :: nat
  lto :: nat
  lnumber :: int
  ltext :: string

definition llength :: "Line \<Rightarrow> nat" where
  "llength l = lto l - lfrom l"

definition newline :: char where
  "newline = CHR 0x0A"

text \<open>The lines of a document: never empty, the empty document has one empty line.\<close>

fun doc_lines :: "string \<Rightarrow> string list" where
  "doc_lines [] = [[]]"
| "doc_lines (c # cs) =
     (if c = newline then [] # doc_lines cs
      else (case doc_lines cs of [] \<Rightarrow> [[c]] | l # ls \<Rightarrow> (c # l) # ls))"

definition lines :: "string \<Rightarrow> int" where
  "lines d = int (length (doc_lines d))"

text \<open>
  \<^verbatim>\<open>doc.lineAt(pos)\<close>: the line around offset \<open>pos\<close>. The scan carries the offset at
  which the current line starts and its number. The library raises a range error for a
  position outside the document.
\<close>

fun lineAt_scan :: "string list \<Rightarrow> nat \<Rightarrow> int \<Rightarrow> nat \<Rightarrow> Line" where
  "lineAt_scan [] f n pos = \<lparr>lfrom = f, lto = f, lnumber = n, ltext = []\<rparr>"
| "lineAt_scan [l] f n pos = \<lparr>lfrom = f, lto = f + length l, lnumber = n, ltext = l\<rparr>"
| "lineAt_scan (l # l' # ls) f n pos =
     (if pos \<le> f + length l then \<lparr>lfrom = f, lto = f + length l, lnumber = n, ltext = l\<rparr>
      else lineAt_scan (l' # ls) (f + length l + 1) (n + 1) pos)"

definition lineAt :: "string \<Rightarrow> nat \<Rightarrow> error + Line" where
  "lineAt d pos =
     (if pos > length d then Inl RangeError else Inr (lineAt_scan (doc_lines d) 0 1 pos))"

text \<open>
  \<^verbatim>\<open>doc.line(n)\<close>: the line with the 1-based number \<open>n\<close>; a range error outside.
  The argument is a number; one that is not an integer is no line number (\<^verbatim>\<open>go\<close> never
  passes one).
\<close>

fun line_scan :: "string list \<Rightarrow> nat \<Rightarrow> int \<Rightarrow> int \<Rightarrow> Line" where
  "line_scan [] f n k = \<lparr>lfrom = f, lto = f, lnumber = n, ltext = []\<rparr>"
| "line_scan [l] f n k = \<lparr>lfrom = f, lto = f + length l, lnumber = n, ltext = l\<rparr>"
| "line_scan (l # l' # ls) f n k =
     (if k \<le> n then \<lparr>lfrom = f, lto = f + length l, lnumber = n, ltext = l\<rparr>
      else line_scan (l' # ls) (f + length l + 1) (n + 1) k)"

definition line :: "string \<Rightarrow> number \<Rightarrow> error + Line" where
  "line d n =
     (case n of
        Num q \<Rightarrow>
          if q < 1 \<or> q > of_int (lines d) \<or> of_int \<lfloor>q\<rfloor> \<noteq> q then Inl RangeError
          else Inr (line_scan (doc_lines d) 0 1 \<lfloor>q\<rfloor>)
      | _ \<Rightarrow> Inl RangeError)"

text \<open>\<^verbatim>\<open>state.sliceDoc(from, to)\<close>\<close>

definition sliceDoc :: "string \<Rightarrow> nat \<Rightarrow> nat \<Rightarrow> string" where
  "sliceDoc d f t = take (t - f) (drop f d)"

text \<open>
  A selection range has an anchor and a head; \<open>from\<close> and \<open>to\<close> are their minimum and
  maximum. A selection has a main range and possibly further ranges.
\<close>

record SelectionRange =
  anchor :: nat
  head :: nat

definition range_from :: "SelectionRange \<Rightarrow> nat" where
  "range_from r = min (anchor r) (head r)"

definition range_to :: "SelectionRange \<Rightarrow> nat" where
  "range_to r = max (anchor r) (head r)"

definition range_empty :: "SelectionRange \<Rightarrow> bool" where
  "range_empty r = (range_from r = range_to r)"

record EditorSelection =
  main :: SelectionRange
  others :: "SelectionRange list"

definition ranges :: "EditorSelection \<Rightarrow> SelectionRange list" where
  "ranges sel = main sel # others sel"

definition cursor :: "nat \<Rightarrow> EditorSelection" where
  "cursor pos = \<lparr>main = \<lparr>anchor = pos, head = pos\<rparr>, others = []\<rparr>"

record EditorState =
  doc :: string
  selection :: EditorSelection

section \<open>The goto-line dialog\<close>

subsection \<open>The input grammar\<close>

definition is_digit :: "char \<Rightarrow> bool" where
  "is_digit c = (48 \<le> (of_char c :: nat) \<and> (of_char c :: nat) \<le> 57)"

text \<open>
  The value of a string of decimal digits, as the unary \<^verbatim>\<open>+\<close> of the source reads it,
  digit by digit from the left.
\<close>

definition to_number :: "string \<Rightarrow> nat" where
  "to_number ds = foldl (\<lambda>a c. 10 * a + (of_char c - 48)) 0 ds"

text \<open>
  For comparison, the number a string of decimal digits denotes: every digit times the
  power of ten of its place.
\<close>

fun decimal_value :: "string \<Rightarrow> nat" where
  "decimal_value [] = 0"
| "decimal_value (c # cs) = (of_char c - 48) * 10 ^ length cs + decimal_value cs"

text \<open>
  The regular expression \<^verbatim>\<open>/^([+-])?(\d+)?(:\d+)?(%)?$/\<close> applied with \<^verbatim>\<open>exec\<close>:
  \<open>None\<close> when the input does not match, otherwise the four capture groups, each
  \<open>None\<close> when it took no part in the match. Every group starts with a character no
  other group accepts, so the greedy left-to-right reading is the only one.
\<close>

definition opt_sign :: "string \<Rightarrow> char option \<times> string" where
  "opt_sign s =
     (case s of [] \<Rightarrow> (None, s)
      | c # r \<Rightarrow> if c = CHR ''+'' \<or> c = CHR ''-'' then (Some c, r) else (None, s))"

definition opt_digits :: "string \<Rightarrow> string option \<times> string" where
  "opt_digits s =
     (if takeWhile is_digit s = [] then (None, s)
      else (Some (takeWhile is_digit s), dropWhile is_digit s))"

definition opt_column :: "string \<Rightarrow> string option \<times> string" where
  "opt_column s =
     (case s of [] \<Rightarrow> (None, s)
      | c # r \<Rightarrow>
          if c = CHR '':'' \<and> takeWhile is_digit r \<noteq> []
          then (Some (c # takeWhile is_digit r), dropWhile is_digit r) else (None, s))"

definition opt_percent :: "string \<Rightarrow> string option \<times> string" where
  "opt_percent s =
     (case s of [] \<Rightarrow> (None, s)
      | c # r \<Rightarrow> if c = CHR ''%'' then (Some [c], r) else (None, s))"

definition exec_re ::
  "string \<Rightarrow> (char option \<times> string option \<times> string option \<times> string option) option" where
  "exec_re input =
     (let (sign, r1) = opt_sign input;
          (ln', r2) = opt_digits r1;
          (cl, r3) = opt_column r2;
          (percent, r4) = opt_percent r3
      in if r4 = [] then Some (sign, ln', cl, percent) else None)"

text \<open>The text a capture group matched; nothing when it took no part in the match.\<close>

definition group_text :: "string option \<Rightarrow> string" where
  "group_text g = (case g of None \<Rightarrow> [] | Some s \<Rightarrow> s)"

text \<open>
  The language of the grammar, written out: an optional sign, an optional group of
  digits, an optional colon followed by at least one digit, an optional percent sign.
\<close>

definition grammar :: "string \<Rightarrow> bool" where
  "grammar input \<longleftrightarrow>
     (\<exists>sg ds cs pc. input = sg @ ds @ cs @ pc
        \<and> (sg = [] \<or> sg = ''+'' \<or> sg = ''-'')
        \<and> list_all is_digit ds
        \<and> (cs = [] \<or> (\<exists>ds'. ds' \<noteq> [] \<and> list_all is_digit ds' \<and> cs = CHR '':'' # ds'))
        \<and> (pc = [] \<or> pc = ''%''))"

subsection \<open>Resolving the input\<close>

text \<open>
  The line the input asks for, before clamping: the assignments to \<^verbatim>\<open>line\<close> in
  \<^verbatim>\<open>go\<close>. \<open>startNumber\<close> is the number of the line around the main selection's head,
  \<open>totalLines\<close> is \<^verbatim>\<open>state.doc.lines\<close>; both are integers that the document hands
  out as numbers. The unary \<^verbatim>\<open>+\<close> gives the number for the digits; every operation
  after it rounds to a number again.
\<close>

definition sign_factor :: "char option \<Rightarrow> int" where
  "sign_factor sign = (if sign = Some CHR ''-'' then - 1 else 1)"

definition target_line ::
  "char option \<Rightarrow> string option \<Rightarrow> string option \<Rightarrow> int \<Rightarrow> int \<Rightarrow> number" where
  "target_line sign ln' percent startNumber totalLines =
     (let line0 = (case ln' of Some ds \<Rightarrow> fl (of_nat (to_number ds))
                   | None \<Rightarrow> Num (of_int startNumber)) in
      if ln' \<noteq> None \<and> percent \<noteq> None then
        (let pc0 = num_div line0 (Num 100);
             pc = (if sign \<noteq> None
                   then num_add (num_mul pc0 (Num (of_int (sign_factor sign))))
                          (num_div (Num (of_int startNumber)) (Num (of_int totalLines)))
                   else pc0)
         in Math_round (num_mul (Num (of_int totalLines)) pc))
      else if ln' \<noteq> None \<and> sign \<noteq> None
        then num_add (num_mul line0 (Num (of_int (sign_factor sign)))) (Num (of_int startNumber))
      else line0)"

text \<open>
  The column, \<^verbatim>\<open>cl ? +cl.slice(1) : 0\<close>. The code uses it only in
  \<^verbatim>\<open>Math.max(0, Math.min(col, docLine.length))\<close>, which is the smaller of the value of
  the digits and the length of the line whatever the rounding of the unary \<^verbatim>\<open>+\<close>
  (lemma \<open>column_clamp_number\<close> below), so the column is kept as the natural number
  the digits denote.
\<close>

definition column :: "string option \<Rightarrow> nat" where
  "column cl = (case cl of Some c \<Rightarrow> to_number (drop 1 c) | None \<Rightarrow> 0)"

text \<open>
  The view as far as the dialog's \<^verbatim>\<open>go\<close> touches it: the editor state (document and
  selection), the field that keeps the dialog open, and the focus.
\<close>

record GotoView = EditorState +
  dialogField :: bool
  hasFocus :: bool

text \<open>
  \<^verbatim>\<open>go\<close>: on a mismatch it returns without dispatching anything; otherwise it closes
  the dialog, puts a cursor on the resolved position and focuses the editor. The request
  to scroll the cursor into view changes nothing the model keeps.
\<close>

definition go :: "GotoView \<Rightarrow> string \<Rightarrow> error + GotoView" where
  "go view input =
     (case exec_re input of
        None \<Rightarrow> Inr view
      | Some (sign, ln', cl, percent) \<Rightarrow>
          (case lineAt (doc view) (head (main (selection view))) of
             Inl e \<Rightarrow> Inl e
           | Inr startLine \<Rightarrow>
               (let col = column cl;
                    line0 = target_line sign ln' percent (lnumber startLine) (lines (doc view))
                in case line (doc view)
                          (Math_max (Num 1) (Math_min (Num (of_int (lines (doc view)))) line0)) of
                     Inl e \<Rightarrow> Inl e
                   | Inr docLine \<Rightarrow>
                       Inr (view\<lparr>selection := cursor (lfrom docLine + max 0 (min col (llength docLine))),
                                 dialogField := False,
                                 hasFocus := True\<rparr>))))"

section \<open>Highlighting the matches of the selection\<close>

datatype CharCategory = Word | Space | Other

record HighlightOptions =
  highlightWordAroundCursor :: bool
  minSelectionLength :: int
  maxMatches :: int

definition defaultHighlightOptions :: HighlightOptions where
  "defaultHighlightOptions =
     \<lparr>highlightWordAroundCursor = False, minSelectionLength = 1, maxMatches = 100\<rparr>"

text \<open>
  The view as far as \<^verbatim>\<open>getDeco\<close> reads it: the editor state, the combined value of the
  \<^verbatim>\<open>highlightConfig\<close> facet, the host's \<^verbatim>\<open>charCategorizer\<close> (a classifier for each
  position) and the visible ranges.
\<close>

record MatchView = EditorState +
  highlightConfig :: HighlightOptions
  charCategorizer :: "nat \<Rightarrow> string \<Rightarrow> CharCategory"
  visibleRanges :: "(nat \<times> nat) list"

text \<open>\<^verbatim>\<open>String.prototype.slice\<close> for indices inside the string.\<close>

definition slice :: "string \<Rightarrow> nat \<Rightarrow> nat \<Rightarrow> string" where
  "slice s f t = take (t - f) (drop f s)"

text \<open>
  \<^verbatim>\<open>String.prototype.trim\<close>: the white space and line terminators among the code units
  below 256.
\<close>

definition is_space :: "char \<Rightarrow> bool" where
  "is_space c = ((of_char c :: nat) \<in> {9, 10, 11, 12, 13, 32, 160})"

definition trim :: "string \<Rightarrow> string" where
  "trim s = rev (dropWhile is_space (rev (dropWhile is_space s)))"

text \<open>
  \<^verbatim>\<open>findClusterBreak\<close> of the host's text package, for text in which every code unit is
  a grapheme cluster of its own: one step forward (never past the end) or backward
  (never before the start).
\<close>

definition findClusterBreak :: "string \<Rightarrow> nat \<Rightarrow> bool \<Rightarrow> nat" where
  "findClusterBreak str pos forward = (if forward then min (Suc pos) (length str) else pos - 1)"

subsection \<open>The word around the cursor\<close>

text \<open>The two loops of \<^verbatim>\<open>wordAt\<close>, on the text of the line.\<close>

function word_from :: "string \<Rightarrow> (string \<Rightarrow> CharCategory) \<Rightarrow> nat \<Rightarrow> nat" where
  "word_from txt check from' =
     (if from' > 0 then
        (let prev = findClusterBreak txt from' False in
         if check (slice txt prev from') \<noteq> Word then from' else word_from txt check prev)
      else from')"
  by pat_completeness auto
termination
  by (relation "measure (\<lambda>(txt, check, from'). from')") (auto simp: findClusterBreak_def)

declare word_from.simps [simp del]

function word_to :: "string \<Rightarrow> (string \<Rightarrow> CharCategory) \<Rightarrow> nat \<Rightarrow> nat" where
  "word_to txt check to' =
     (if to' < length txt then
        (let next' = findClusterBreak txt to' True in
         if check (slice txt to' next') \<noteq> Word then to' else word_to txt check next')
      else to')"
  by pat_completeness auto
termination
  by (relation "measure (\<lambda>(txt, check, to'). length txt - to')") (auto simp: findClusterBreak_def)

declare word_to.simps [simp del]

definition wordAt :: "string \<Rightarrow> nat \<Rightarrow> (string \<Rightarrow> CharCategory) \<Rightarrow> error + string option" where
  "wordAt d pos check =
     (case lineAt d pos of
        Inl e \<Rightarrow> Inl e
      | Inr ln' \<Rightarrow>
          (let from' = word_from (ltext ln') check (pos - lfrom ln');
               to' = word_to (ltext ln') check (pos - lfrom ln')
           in Inr (if from' = to' then None else Some (slice (ltext ln') from' to'))))"

subsection \<open>The search cursor\<close>

text \<open>
  Modelled from the spec: the class \<^verbatim>\<open>SearchCursor\<close> of \<^verbatim>\<open>./cursor\<close>, which
  \<^verbatim>\<open>getDeco\<close> constructs for each visible range, is not among the sources. By the
  specification it enumerates, scanning forward from the start of the range, the
  occurrences of the literal query that lie inside the range; after a match the scan
  resumes at the end of the match, so matches do not overlap; an empty query has no
  match; fewer characters left in the range than the query has end the scan. The model
  returns the successive values of the cursor as a list.
\<close>

function SearchCursor :: "string \<Rightarrow> string \<Rightarrow> nat \<Rightarrow> nat \<Rightarrow> (nat \<times> nat) list" where
  "SearchCursor d query pos to' =
     (if query = [] \<or> pos + length query > to' then []
      else if sliceDoc d pos (pos + length query) = query
        then (pos, pos + length query) # SearchCursor d query (pos + length query) to'
      else SearchCursor d query (Suc pos) to')"
  by pat_completeness auto
termination
  by (relation "measure (\<lambda>(d, query, pos, to'). to' - pos)") (auto simp: neq_Nil_conv)

declare SearchCursor.simps [simp del]

subsection \<open>Collecting the decorations\<close>

text \<open>
  A decoration is one of the two marks applied to a span: \<^verbatim>\<open>matchDeco.range(from, to)\<close>
  or \<^verbatim>\<open>mainMatchDeco.range(from, to)\<close>. A decoration set is the list of its ranges in
  document order; \<^verbatim>\<open>Decoration.none\<close> is the empty list.
\<close>

datatype Decoration = matchDeco nat nat | mainMatchDeco nat nat

fun deco_from :: "Decoration \<Rightarrow> nat" where
  "deco_from (matchDeco f t) = f"
| "deco_from (mainMatchDeco f t) = f"

fun deco_to :: "Decoration \<Rightarrow> nat" where
  "deco_to (matchDeco f t) = t"
| "deco_to (mainMatchDeco f t) = t"

text \<open>
  The test a match passes before it is looked at any further: no classifier, or the
  characters next to the match on both sides are not word characters.
\<close>

definition whole_word :: "string \<Rightarrow> (string \<Rightarrow> CharCategory) option \<Rightarrow> nat \<Rightarrow> nat \<Rightarrow> bool" where
  "whole_word d check from' to' =
     (case check of
        None \<Rightarrow> True
      | Some c \<Rightarrow> (from' = 0 \<or> c (sliceDoc d (from' - 1) from') \<noteq> Word)
                \<and> (to' = length d \<or> c (sliceDoc d to' (to' + 1)) \<noteq> Word))"

text \<open>What a match that passed the test pushes onto \<^verbatim>\<open>deco\<close>: one decoration or nothing.\<close>

definition pushed ::
  "SelectionRange \<Rightarrow> (string \<Rightarrow> CharCategory) option \<Rightarrow> nat \<Rightarrow> nat \<Rightarrow> Decoration list" where
  "pushed range' check from' to' =
     (if check \<noteq> None \<and> from' \<le> range_from range' \<and> to' \<ge> range_to range'
        then [mainMatchDeco from' to']
      else if from' \<ge> range_to range' \<or> to' \<le> range_from range'
        then [matchDeco from' to']
      else [])"

text \<open>
  The inner loop over the values of one cursor. \<open>None\<close> stands for leaving \<^verbatim>\<open>getDeco\<close>
  with \<^verbatim>\<open>Decoration.none\<close> from inside the loops.
\<close>

fun cursor_loop ::
  "string \<Rightarrow> int \<Rightarrow> SelectionRange \<Rightarrow> (string \<Rightarrow> CharCategory) option
     \<Rightarrow> (nat \<times> nat) list \<Rightarrow> Decoration list \<Rightarrow> Decoration list option" where
  "cursor_loop d maxM range' check [] deco = Some deco"
| "cursor_loop d maxM range' check ((from', to') # ms) deco =
     (if whole_word d check from' to' then
        (let deco' = deco @ pushed range' check from' to' in
         if int (length deco') > maxM then None
         else cursor_loop d maxM range' check ms deco')
      else cursor_loop d maxM range' check ms deco)"

text \<open>The outer loop over the visible ranges.\<close>

fun parts_loop ::
  "string \<Rightarrow> int \<Rightarrow> SelectionRange \<Rightarrow> (string \<Rightarrow> CharCategory) option \<Rightarrow> string
     \<Rightarrow> (nat \<times> nat) list \<Rightarrow> Decoration list \<Rightarrow> Decoration list option" where
  "parts_loop d maxM range' check query [] deco = Some deco"
| "parts_loop d maxM range' check query ((pfrom, pto) # parts) deco =
     (case cursor_loop d maxM range' check (SearchCursor d query pfrom pto) deco of
        None \<Rightarrow> None
      | Some deco' \<Rightarrow> parts_loop d maxM range' check query parts deco')"

text \<open>The second half of \<^verbatim>\<open>getDeco\<close>, from \<^verbatim>\<open>let deco = []\<close> on.\<close>

definition collect_matches ::
  "MatchView \<Rightarrow> string \<Rightarrow> (string \<Rightarrow> CharCategory) option \<Rightarrow> Decoration list" where
  "collect_matches view query check =
     (case parts_loop (doc view) (maxMatches (highlightConfig view)) (main (selection view))
             check query (visibleRanges view) [] of
        None \<Rightarrow> []
      | Some deco \<Rightarrow> deco)"

definition getDeco :: "MatchView \<Rightarrow> error + Decoration list" where
  "getDeco view =
     (let conf = highlightConfig view; sel = selection view in
      if length (ranges sel) > 1 then Inr []
      else
        (let range' = main sel in
         if range_empty range' then
           (if \<not> highlightWordAroundCursor conf then Inr []
            else
              (let check = charCategorizer view (head range') in
               case wordAt (doc view) (head range') check of
                 Inl e \<Rightarrow> Inl e
               | Inr None \<Rightarrow> Inr []
               | Inr (Some query) \<Rightarrow>
                   if query = [] then Inr [] else Inr (collect_matches view query (Some check))))
         else
           (let len = range_to range' - range_from range' in
            if int len < minSelectionLength conf \<or> len > 200 then Inr []
            else
              (let query = trim (sliceDoc (doc view) (range_from range') (range_to range')) in
               if query = [] then Inr [] else Inr (collect_matches view query None)))))"

text \<open>
  A classifier to run the examples with: letters, digits and the underscore are word
  characters, white space is space, everything else is other.
\<close>

definition is_word_char :: "char \<Rightarrow> bool" where
  "is_word_char c =
     (let n = (of_char c :: nat) in
      (48 \<le> n \<and> n \<le> 57) \<or> (65 \<le> n \<and> n \<le> 90) \<or> (97 \<le> n \<and> n \<le> 122) \<or> n = 95)"

definition categorize :: "string \<Rightarrow> CharCategory" where
  "categorize s =
     (if list_all is_space s then Space else if list_ex is_word_char s then Word else Other)"

subsection \<open>The decorations of a pass without the cutoff\<close>

text \<open>
  For stating what the cutoff does: the values of the cursors over all visible ranges, in
  order, and everything these matches push when no limit stops the loops.
\<close>

definition match_decorations ::
  "string \<Rightarrow> SelectionRange \<Rightarrow> (string \<Rightarrow> CharCategory) option \<Rightarrow> (nat \<times> nat) list
     \<Rightarrow> Decoration list" where
  "match_decorations d range' check ms =
     concat (map (\<lambda>(from', to'). if whole_word d check from' to'
                                  then pushed range' check from' to' else []) ms)"

definition viewport_matches :: "string \<Rightarrow> string \<Rightarrow> (nat \<times> nat) list \<Rightarrow> (nat \<times> nat) list" where
  "viewport_matches d query parts = concat (map (\<lambda>(pfrom, pto). SearchCursor d query pfrom pto) parts)"

definition all_decorations ::
  "MatchView \<Rightarrow> string \<Rightarrow> (string \<Rightarrow> CharCategory) option \<Rightarrow> Decoration list" where
  "all_decorations v query check =
     match_decorations (doc v) (main (selection v)) check
       (viewport_matches (doc v) query (visibleRanges v))"

section \<open>Properties of the numbers\<close>

lemma rne_error: "\<bar>of_int (rne y) - y\<bar> \<le> 1 / 2"
  unfolding rne_def Let_def by (auto simp: abs_if) linarith+

lemma rne_of_int: "rne (of_int n) = n"
  by (simp add: rne_def)

text \<open>\<open>ilog2\<close> is the exponent of the power of two at or below its argument.\<close>

lemma ilog2_bounds:
  assumes "0 < x"
  shows "2 powi (ilog2 x) \<le> x \<and> x < 2 powi (ilog2 x + 1)"
proof (cases "1 \<le> x")
  case True
  let ?n = "\<lfloor>x\<rfloor>"
  have n: "0 < ?n" using True by linarith
  note b = bitlen_bounds [OF n]
  have e: "ilog2 x = bitlen ?n - 1" using True by (simp add: ilog2_def)
  have ge: "0 \<le> bitlen ?n - 1" using n by (simp add: bitlen_alt_def)
  have "(2::rat) powi (bitlen ?n - 1) = of_int (2 ^ nat (bitlen ?n - 1))"
    using ge by (simp add: power_int_nonneg_exp)
  also have "\<dots> \<le> of_int ?n" using b by (simp only: of_int_le_iff)
  also have "\<dots> \<le> x" by simp
  finally have lo: "2 powi (ilog2 x) \<le> x" by (simp add: e)
  have "x < of_int (?n + 1)" by linarith
  also have "?n + 1 \<le> 2 ^ nat (bitlen ?n)" using b by simp
  then have "(of_int (?n + 1) :: rat) \<le> of_int (2 ^ nat (bitlen ?n))" by (simp only: of_int_le_iff)
  also have "\<dots> = 2 powi (bitlen ?n)" using ge by (simp add: power_int_nonneg_exp)
  finally have "x < 2 powi (ilog2 x + 1)" by (simp add: e)
  with lo show ?thesis ..
next
  case False
  let ?y = "1 / x"
  let ?m = "\<lceil>?y\<rceil> - 1"
  have y: "1 < ?y" using False assms by simp
  have m: "0 < ?m" using y by linarith
  note b = bitlen_bounds [OF m]
  have e: "ilog2 x = - bitlen ?m" using False by (simp add: ilog2_def)
  have k: "1 \<le> bitlen ?m" using m by (simp add: bitlen_alt_def)
  have "?y \<le> of_int (?m + 1)" by simp
  also have "?m + 1 \<le> 2 ^ nat (bitlen ?m)" using b by simp
  then have "(of_int (?m + 1) :: rat) \<le> of_int (2 ^ nat (bitlen ?m))" by (simp only: of_int_le_iff)
  also have "\<dots> = 2 powi (bitlen ?m)" using k by (simp add: power_int_nonneg_exp)
  finally have "1 / x \<le> 2 powi (bitlen ?m)" .
  then have "1 \<le> 2 powi (bitlen ?m) * x" using assms by (simp add: field_simps)
  then have lo: "2 powi (ilog2 x) \<le> x"
    unfolding e power_int_minus by (simp add: field_simps)
  have "(2::rat) powi (bitlen ?m - 1) = of_int (2 ^ nat (bitlen ?m - 1))"
    using k by (simp add: power_int_nonneg_exp)
  also have "\<dots> \<le> of_int ?m" using b by (simp only: of_int_le_iff)
  also have "\<dots> < ?y" by linarith
  finally have "2 powi (bitlen ?m - 1) * x < 1" using assms by (simp add: field_simps)
  moreover have P: "0 < (2::rat) powi (bitlen ?m - 1)" by simp
  ultimately have "x < 1 / 2 powi (bitlen ?m - 1)" by (simp add: field_simps)
  moreover have "(2::rat) powi (ilog2 x + 1) = 1 / 2 powi (bitlen ?m - 1)"
    unfolding e by (simp add: power_int_minus_divide [symmetric])
  ultimately have "x < 2 powi (ilog2 x + 1)" by simp
  with lo show ?thesis ..
qed

lemma ilog2_nonneg: "1 \<le> x \<Longrightarrow> 0 \<le> ilog2 x"
  by (simp add: ilog2_def bitlen_alt_def)

lemma ilog2_less:
  assumes "0 < x" "x < 2 powi k"
  shows "ilog2 x < k"
proof (rule ccontr)
  assume "\<not> ilog2 x < k"
  then have "(2::rat) powi k \<le> 2 powi (ilog2 x)" by (intro power_int_increasing) simp_all
  with ilog2_bounds [OF assms(1)] assms(2) show False by linarith
qed

text \<open>
  Some numbers: the double for one tenth and for one third, and two ties, which go to
  the even significand.
\<close>

lemma fl_examples:
  "fl (1 / 10) = Num (3602879701896397 / 36028797018963968)
   \<and> fl (1 / 3) = Num (6004799503160661 / 18014398509481984)
   \<and> fl 9007199254740993 = Num 9007199254740992
   \<and> fl 9007199254740995 = Num 9007199254740996"
  by code_simp

lemma fl_not_NaN: "fl x \<noteq> NaN"
  by (simp add: fl_def)

text \<open>Below the largest power of two of the format the result is finite.\<close>

lemma fl_finite:
  assumes "\<bar>x\<bar> < 2 powi 1023"
  shows "\<exists>y. fl x = Num y"
proof (cases "x = 0")
  case True
  then show ?thesis by (simp add: fl_def)
next
  case False
  then have "ilog2 \<bar>x\<bar> < 1023" using assms by (intro ilog2_less) simp_all
  then have "fl_exp x \<le> 1022" by (simp add: fl_exp_def)
  then show ?thesis using False by (simp add: fl_def)
qed

text \<open>
  The error of one rounding: at most the fraction \<open>2 powi (- 53)\<close> of the argument, or
  half the distance of the subnormal numbers.
\<close>

lemma fl_error:
  assumes "fl x = Num y"
  shows "\<bar>y - x\<bar> \<le> \<bar>x\<bar> / 2 ^ 53 + 2 powi (- 1075)"
proof (cases "x = 0")
  case True
  with assms show ?thesis by (simp add: fl_def)
next
  case False
  define e where "e = fl_exp x"
  define q :: rat where "q = 2 powi (e - 52)"
  define m where "m = fl_mant x"
  have q: "0 < q" by (simp add: q_def)
  have m: "m = rne (\<bar>x\<bar> / q)" by (simp add: m_def fl_mant_def q_def e_def)
  have y: "y = (if x > 0 then 1 else - 1) * (of_int m * q)"
    using assms False unfolding fl_def e_def [symmetric] q_def [symmetric] m_def [symmetric]
    by (simp split: if_splits)
  have "\<bar>of_int m - \<bar>x\<bar> / q\<bar> \<le> 1 / 2" unfolding m by (rule rne_error)
  then have "\<bar>of_int m - \<bar>x\<bar> / q\<bar> * q \<le> 1 / 2 * q"
    using q by (simp only: mult_le_cancel_right_pos)
  moreover have "\<bar>of_int m - \<bar>x\<bar> / q\<bar> * q = \<bar>(of_int m - \<bar>x\<bar> / q) * q\<bar>"
    using q by (simp add: abs_mult)
  moreover have "(of_int m - \<bar>x\<bar> / q) * q = of_int m * q - \<bar>x\<bar>"
    using q by (simp add: left_diff_distrib)
  ultimately have d: "\<bar>of_int m * q - \<bar>x\<bar>\<bar> \<le> q / 2" by simp
  have yx: "\<bar>y - x\<bar> = \<bar>of_int m * q - \<bar>x\<bar>\<bar>"
  proof (cases "x > 0")
    case True
    then show ?thesis unfolding y by simp
  next
    case neg: False
    then have "y - x = - (of_int m * q - \<bar>x\<bar>)" unfolding y using False by simp
    then show ?thesis by (simp only: abs_minus_cancel)
  qed
  have q2: "q / 2 = 2 powi (e - 53)"
  proof -
    have "(2::rat) powi (e - 52) = 2 powi (e - 53 + 1)" by simp
    also have "\<dots> = 2 powi (e - 53) * 2" by (subst power_int_add) simp_all
    finally show ?thesis by (simp add: q_def)
  qed
  have "q / 2 \<le> \<bar>x\<bar> / 2 ^ 53 + 2 powi (- 1075)"
  proof (cases "ilog2 \<bar>x\<bar> \<ge> - 1022")
    case True
    then have e: "e = ilog2 \<bar>x\<bar>" by (simp add: e_def fl_exp_def)
    have "(2::rat) powi (e - 53) = 2 powi e / 2 ^ 53"
      by (simp add: power_int_diff)
    also have "\<dots> \<le> \<bar>x\<bar> / 2 ^ 53"
      using ilog2_bounds [of "\<bar>x\<bar>"] False unfolding e by (intro divide_right_mono) simp_all
    finally show ?thesis unfolding q2 using zero_le_power_int [of "2::rat" "- 1075"]
      by linarith
  next
    case False
    then have "e = - 1022" by (simp add: e_def fl_exp_def)
    then have "q / 2 = 2 powi (- 1075)" unfolding q2 by simp
    moreover have "0 \<le> \<bar>x\<bar> / 2 ^ 53" by simp
    ultimately show ?thesis by linarith
  qed
  with d yx show ?thesis by linarith
qed

text \<open>The number for an integer is an integer or an infinity.\<close>

lemma fl_of_int:
  "(\<exists>k. fl (of_int n) = Num (of_int k)) \<or> fl (of_int n) = PosInf \<or> fl (of_int n) = NegInf"
proof (cases "n = 0")
  case True
  then have "fl (of_int n) = Num (of_int 0)" by (simp add: fl_def)
  then show ?thesis by blast
next
  case False
  define x :: rat where "x = of_int n"
  define e where "e = fl_exp x"
  define q :: rat where "q = 2 powi (e - 52)"
  define m where "m = fl_mant x"
  have m: "m = rne (\<bar>x\<bar> / q)" by (simp add: m_def fl_mant_def q_def e_def)
  have x1: "1 \<le> \<bar>x\<bar>"
  proof -
    have "1 \<le> \<bar>n\<bar>" using False by simp
    then have "(of_int 1 :: rat) \<le> of_int \<bar>n\<bar>" by (simp only: of_int_le_iff)
    then show ?thesis by (simp add: x_def)
  qed
  have e0: "0 \<le> e" using ilog2_nonneg [OF x1] by (simp add: e_def fl_exp_def)
  have "\<exists>k. of_int m * q = (of_int k :: rat)"
  proof (cases "52 \<le> e")
    case True
    then have "q = of_int (2 ^ nat (e - 52))" by (simp add: q_def power_int_nonneg_exp)
    then have "of_int m * q = (of_int (m * 2 ^ nat (e - 52)) :: rat)" by simp
    then show ?thesis by blast
  next
    case False
    have "(2::rat) powi (e - 52) = 2 powi (- (52 - e))" by simp
    also have "\<dots> = 1 / 2 powi (52 - e)" by (rule power_int_minus_divide)
    also have "\<dots> = 1 / 2 ^ nat (52 - e)" using False by (simp add: power_int_nonneg_exp)
    finally have qq: "q = 1 / 2 ^ nat (52 - e)" by (simp add: q_def)
    then have "\<bar>x\<bar> / q = of_int (\<bar>n\<bar> * 2 ^ nat (52 - e))" by (simp add: x_def)
    then have "m = \<bar>n\<bar> * 2 ^ nat (52 - e)" unfolding m by (simp only: rne_of_int)
    then have "of_int m * q = (of_int \<bar>n\<bar> :: rat)" using qq by simp
    then show ?thesis by blast
  qed
  then obtain k where k: "of_int m * q = (of_int k :: rat)" by blast
  have "(if x > 0 then 1 else - 1) * (of_int m * q) = (of_int (if x > 0 then k else - k) :: rat)"
    using k by simp
  then obtain k' where k': "(if x > 0 then 1 else - 1) * (of_int m * q) = (of_int k' :: rat)"
    by blast
  have "x \<noteq> 0" using x1 by auto
  then have "fl x = (if e > 1023 \<or> (e = 1023 \<and> m \<ge> 2 ^ 53) then (if x > 0 then PosInf else NegInf)
            else Num (of_int k'))"
    unfolding fl_def e_def [symmetric] q_def [symmetric] m_def [symmetric] k' by simp
  then show ?thesis unfolding x_def by (auto split: if_splits)
qed

lemma small_finite: "\<bar>x\<bar> \<le> 2 ^ 60 \<Longrightarrow> \<exists>y. fl x = Num y"
proof (rule fl_finite)
  assume "\<bar>x\<bar> \<le> 2 ^ 60"
  also have "(2::rat) ^ 60 = 2 powi 60" by simp
  also have "\<dots> < 2 powi 1023" by (rule power_int_strict_increasing) simp_all
  finally show "\<bar>x\<bar> < 2 powi 1023" .
qed

lemma eta_small: "(2::rat) powi (- 1075) \<le> 1 / 2 ^ 113"
proof -
  have "(2::rat) powi (- 1075) \<le> 2 powi (- 113)" by (rule power_int_increasing) simp_all
  also have "\<dots> = 1 / 2 ^ 113" by (simp add: power_int_minus_divide)
  finally show ?thesis .
qed

text \<open>One rounding of an argument of moderate size: a finite result, a small error.\<close>

lemma fl_step:
  assumes "\<bar>x\<bar> \<le> 2 ^ 60"
  obtains y where "fl x = Num y" "\<bar>y - x\<bar> \<le> \<bar>x\<bar> / 2 ^ 53 + 1 / 2 ^ 113"
proof -
  obtain y where y: "fl x = Num y" using small_finite [OF assms] by blast
  have "\<bar>y - x\<bar> \<le> \<bar>x\<bar> / 2 ^ 53 + 2 powi (- 1075)" by (rule fl_error [OF y])
  then have "\<bar>y - x\<bar> \<le> \<bar>x\<bar> / 2 ^ 53 + 1 / 2 ^ 113" using eta_small by linarith
  with y show ?thesis by (rule that)
qed

text \<open>
  A value within a hundredth of a number of hundredths that is no tie rounds as that
  number does.
\<close>

lemma round_stable:
  fixes d :: rat
  assumes "\<bar>d - of_int N / 100\<bar> < 1 / 100" and "N mod 100 \<noteq> 50"
  shows "\<lfloor>d + 1 / 2\<rfloor> = round (of_int N / 100 :: rat)"
proof -
  define k where "k = N div 100"
  define a where "a = N mod 100"
  have a: "0 \<le> a" "a < 100" "a \<noteq> 50" using assms(2) by (simp_all add: a_def)
  have "N = 100 * k + a" unfolding k_def a_def by simp
  then have "(of_int N :: rat) = of_int (100 * k + a)" by (simp only:)
  then have v: "(of_int N / 100 :: rat) = of_int k + of_int a / 100" by simp
  have d: "of_int k + of_int a / 100 - 1 / 100 < d" "d < of_int k + of_int a / 100 + 1 / 100"
    using assms(1) unfolding v by linarith+
  show ?thesis
  proof (cases "a < 50")
    case True
    then have "a \<le> 49" by simp
    then have "(of_int a :: rat) \<le> of_int 49" by (simp only: of_int_le_iff)
    moreover have "(of_int 0 :: rat) \<le> of_int a" using a(1) by (simp only: of_int_le_iff)
    ultimately have aa: "(0::rat) \<le> of_int a" "(of_int a :: rat) \<le> 49" by simp_all
    have "\<lfloor>of_int k + of_int a / 100 + 1 / 2 :: rat\<rfloor> = k"
      using aa by (intro floor_unique) linarith+
    moreover have "\<lfloor>d + 1 / 2\<rfloor> = k"
      using aa d by (intro floor_unique) linarith+
    ultimately show ?thesis by (simp only: round_def v)
  next
    case False
    then have "51 \<le> a" "a \<le> 99" using a by simp_all
    then have "(of_int 51 :: rat) \<le> of_int a" "(of_int a :: rat) \<le> of_int 99"
      by (simp_all only: of_int_le_iff)
    then have aa: "(51::rat) \<le> of_int a" "(of_int a :: rat) \<le> 99" by simp_all
    have k1: "(of_int (k + 1) :: rat) = of_int k + 1" by simp
    have "\<lfloor>of_int k + of_int a / 100 + 1 / 2 :: rat\<rfloor> = k + 1"
      unfolding floor_eq_iff k1 using aa by linarith
    moreover have "\<lfloor>d + 1 / 2\<rfloor> = k + 1"
      unfolding floor_eq_iff k1 using aa d by linarith
    ultimately show ?thesis by (simp only: round_def v)
  qed
qed

text \<open>
  The percentage arithmetic of \<^verbatim>\<open>go\<close> with a sign, for documents and magnitudes of
  moderate size: six roundings, whose errors add up to less than a hundredth. So the
  rounded result is that of the exact value, unless the exact value is a tie.
\<close>

lemma percent_exact:
  fixes mag :: nat and cur total s :: int
  assumes c: "1 \<le> cur" "cur \<le> total"
    and h: "of_int total * (of_nat mag + 100) \<le> (2::rat) ^ 48"
    and s: "s = 1 \<or> s = - 1"
    and tie: "(100 * cur + s * int mag * total) mod 100 \<noteq> 50"
  shows "Math_round (num_mul (Num (of_int total))
           (num_add (num_mul (num_div (fl (of_nat mag)) (Num 100)) (Num (of_int s)))
                    (num_div (Num (of_int cur)) (Num (of_int total)))))
         = Num (of_int (round (of_int total
                  * (of_int cur / of_int total + of_int s * of_nat mag / 100) :: rat)))"
proof -
  define M :: rat where "M = of_nat mag"
  define L :: rat where "L = of_int total"
  define C :: rat where "C = of_int cur"
  define S :: rat where "S = of_int s"
  define T where "T = M / 100 + 1"
  define P where "P = L * T"
  have pw: "(2::rat) ^ 48 = 281474976710656" "(2::rat) ^ 53 = 9007199254740992"
    "(2::rat) ^ 60 = 1152921504606846976"
    "(2::rat) ^ 113 = 10384593717069655257060992658440192"
    by simp_all
  have M0: "0 \<le> M" by (simp add: M_def)
  have L1: "1 \<le> L" using c by (simp add: L_def)
  have C1: "1 \<le> C" "C \<le> L" using c by (simp_all add: C_def L_def)
  have S1: "\<bar>S\<bar> = 1" using s by (auto simp: S_def)
  have T1: "1 \<le> T" using M0 by (simp add: T_def)
  have P48: "P \<le> 2 ^ 48 / 100"
  proof -
    have "P = L * (M + 100) / 100" by (simp add: P_def T_def field_simps)
    then show ?thesis using h by (simp add: L_def M_def)
  qed
  have TP: "T \<le> P" unfolding P_def using L1 T1 by (simp add: mult_le_cancel_right1)
  have T48: "T \<le> 2 ^ 48 / 100" using TP P48 unfolding pw by linarith
  have MT: "M = 100 * T - 100" by (simp add: T_def)

  \<comment> \<open>the number for the digits\<close>
  have "\<bar>M\<bar> \<le> 2 ^ 60" using M0 MT T48 unfolding pw by linarith
  then obtain x0 where x0: "fl M = Num x0" and "\<bar>x0 - M\<bar> \<le> \<bar>M\<bar> / 2 ^ 53 + 1 / 2 ^ 113"
    by (rule fl_step)
  then have e0: "\<bar>x0 - M\<bar> \<le> 100 * T / 2 ^ 53" using M0 MT T1 unfolding pw by linarith

  \<comment> \<open>divided by 100\<close>
  have b0: "\<bar>x0 / 100\<bar> \<le> 2 * T" using e0 M0 MT T1 T48 unfolding pw by linarith
  then have "\<bar>x0 / 100\<bar> \<le> 2 ^ 60" using T48 unfolding pw by linarith
  then obtain a where a: "fl (x0 / 100) = Num a"
    and "\<bar>a - x0 / 100\<bar> \<le> \<bar>x0 / 100\<bar> / 2 ^ 53 + 1 / 2 ^ 113"
    by (rule fl_step)
  then have "\<bar>a - x0 / 100\<bar> \<le> 3 * T / 2 ^ 53" using b0 T1 unfolding pw by linarith
  then have e1: "\<bar>a - M / 100\<bar> \<le> 4 * T / 2 ^ 53" using e0 unfolding pw by linarith
  have b1: "\<bar>a\<bar> \<le> T" using e1 M0 MT T48 unfolding pw by linarith

  \<comment> \<open>times the sign\<close>
  have aS: "\<bar>a * S\<bar> = \<bar>a\<bar>" by (simp add: abs_mult S1)
  then have "\<bar>a * S\<bar> \<le> 2 ^ 60" using b1 T48 unfolding pw by linarith
  then obtain a' where a': "fl (a * S) = Num a'"
    and "\<bar>a' - a * S\<bar> \<le> \<bar>a * S\<bar> / 2 ^ 53 + 1 / 2 ^ 113"
    by (rule fl_step)
  then have "\<bar>a' - a * S\<bar> \<le> 2 * T / 2 ^ 53" using aS b1 T1 unfolding pw by linarith
  moreover have "\<bar>a * S - S * M / 100\<bar> = \<bar>a - M / 100\<bar>"
  proof -
    have "a * S - S * M / 100 = (a - M / 100) * S" by (simp add: algebra_simps)
    then show ?thesis by (simp add: abs_mult S1)
  qed
  ultimately have e2: "\<bar>a' - S * M / 100\<bar> \<le> 6 * T / 2 ^ 53" using e1 unfolding pw by linarith
  have SM: "\<bar>S * M / 100\<bar> = M / 100" using M0 by (simp add: abs_mult S1)
  have b2: "\<bar>a'\<bar> \<le> T" using e2 SM MT T48 unfolding pw by linarith

  \<comment> \<open>the current line as a fraction of the document\<close>
  define R where "R = C / L"
  have CL: "0 < R" "R \<le> 1" using C1 L1 by (simp_all add: R_def)
  then have "\<bar>R\<bar> \<le> 2 ^ 60" unfolding pw by linarith
  then obtain b where b: "fl R = Num b"
    and "\<bar>b - R\<bar> \<le> \<bar>R\<bar> / 2 ^ 53 + 1 / 2 ^ 113"
    by (rule fl_step)
  then have e3: "\<bar>b - R\<bar> \<le> 2 * T / 2 ^ 53" using CL T1 unfolding pw by linarith
  have b3: "\<bar>b\<bar> \<le> 2 * T" using e3 CL T1 T48 unfolding pw by linarith

  \<comment> \<open>the sum\<close>
  define E where "E = S * M / 100 + R"
  define W where "W = a' + b"
  have b4: "\<bar>W\<bar> \<le> 3 * T" using b2 b3 unfolding pw W_def by linarith
  then have "\<bar>W\<bar> \<le> 2 ^ 60" using T48 unfolding pw by linarith
  then obtain cc where cc: "fl W = Num cc"
    and "\<bar>cc - W\<bar> \<le> \<bar>W\<bar> / 2 ^ 53 + 1 / 2 ^ 113"
    by (rule fl_step)
  then have "\<bar>cc - W\<bar> \<le> 4 * T / 2 ^ 53" using b4 T1 unfolding pw by linarith
  then have e4: "\<bar>cc - E\<bar> \<le> 12 * T / 2 ^ 53"
    using e2 e3 unfolding pw E_def W_def by linarith
  have b5: "\<bar>cc\<bar> \<le> 2 * T" using e4 SM CL MT T48 unfolding pw E_def by linarith

  \<comment> \<open>times the number of lines\<close>
  have Lc: "\<bar>L * cc\<bar> \<le> 2 * P"
  proof -
    have "\<bar>L * cc\<bar> = L * \<bar>cc\<bar>" using L1 by (simp add: abs_mult)
    also have "\<dots> \<le> L * (2 * T)" using b5 L1 by (intro mult_left_mono) simp_all
    finally show ?thesis by (simp add: P_def)
  qed
  define Lcc where "Lcc = L * cc"
  have "\<bar>Lcc\<bar> \<le> 2 ^ 60" using Lc P48 unfolding pw Lcc_def [symmetric] by linarith
  then obtain d where d: "fl Lcc = Num d"
    and "\<bar>d - Lcc\<bar> \<le> \<bar>Lcc\<bar> / 2 ^ 53 + 1 / 2 ^ 113"
    by (rule fl_step)
  then have e5: "\<bar>d - Lcc\<bar> \<le> 3 * P / 2 ^ 53"
    using Lc TP T1 unfolding pw Lcc_def [symmetric] by linarith
  define LE where "LE = L * E"
  have "\<bar>Lcc - LE\<bar> \<le> 12 * P / 2 ^ 53"
  proof -
    have "\<bar>L * cc - L * E\<bar> = L * \<bar>cc - E\<bar>"
      using L1 by (simp add: abs_mult right_diff_distrib [symmetric])
    also have "\<dots> \<le> L * (12 * T / 2 ^ 53)" using e4 L1 by (intro mult_left_mono) simp_all
    finally show ?thesis by (simp add: P_def Lcc_def LE_def)
  qed
  with e5 have "\<bar>d - LE\<bar> \<le> 15 * P / 2 ^ 53" unfolding pw by linarith
  then have e6: "\<bar>d - LE\<bar> < 1 / 100" using P48 unfolding pw by linarith

  \<comment> \<open>the exact value is a number of hundredths\<close>
  have v: "L * (C / L + S * M / 100) = of_int (100 * cur + s * int mag * total) / 100"
    using L1 by (simp add: L_def C_def S_def M_def field_simps)
  have "LE = L * (C / L + S * M / 100)" by (simp add: LE_def E_def R_def add.commute)
  with e6 v have "\<bar>d - of_int (100 * cur + s * int mag * total) / 100\<bar> < 1 / 100" by simp
  from round_stable [OF this tie]
  have r: "\<lfloor>d + 1 / 2\<rfloor> = round (L * (C / L + S * M / 100))" by (simp only: v)

  have L0: "L \<noteq> 0" using L1 by simp
  have "Math_round (num_mul (Num L) (num_add (num_mul (num_div (fl M) (Num 100)) (Num S))
          (num_div (Num C) (Num L)))) = Num (of_int \<lfloor>d + 1 / 2\<rfloor>)"
    using x0 a a' b cc d L0
    by (simp add: R_def Lcc_def W_def num_mul_def num_add_def num_div_def Math_round_def)
  then show ?thesis
    unfolding r by (simp add: M_def L_def C_def S_def)
qed

section \<open>Properties of the document model\<close>

lemma doc_lines_nonempty: "doc_lines d \<noteq> []"
  by (induction d) (auto split: list.splits)

lemma doc_lines_length:
  "sum_list (map length (doc_lines d)) + length (doc_lines d) = Suc (length d)"
proof (induction d)
  case Nil
  show ?case by simp
next
  case (Cons c cs)
  obtain l ls where "doc_lines cs = l # ls"
    using doc_lines_nonempty [of cs] by (cases "doc_lines cs") auto
  with Cons show ?case by auto
qed

lemma lines_ge_1: "1 \<le> lines d"
  using doc_lines_nonempty [of d] by (cases "doc_lines d") (auto simp: lines_def)

lemma line_scan_bounds:
  "ls \<noteq> [] \<Longrightarrow>
     f \<le> lfrom (line_scan ls f n k)
     \<and> lto (line_scan ls f n k) = lfrom (line_scan ls f n k) + length (ltext (line_scan ls f n k))
     \<and> Suc (lto (line_scan ls f n k)) \<le> f + sum_list (map length ls) + length ls"
proof (induction ls f n k rule: line_scan.induct)
  case (3 l l' ls f n k)
  show ?case
  proof (cases "k \<le> n")
    case True
    then show ?thesis by simp
  next
    case False
    with 3 show ?thesis by simp
  qed
qed simp_all

lemma line_scan_number:
  "ls \<noteq> [] \<Longrightarrow> n \<le> k \<Longrightarrow> k < n + int (length ls) \<Longrightarrow> lnumber (line_scan ls f n k) = k"
proof (induction ls f n k rule: line_scan.induct)
  case (3 l l' ls f n k)
  show ?case
  proof (cases "k \<le> n")
    case True
    with 3 show ?thesis by simp
  next
    case False
    with 3 show ?thesis by simp
  qed
qed simp_all

lemma lineAt_scan_number:
  "ls \<noteq> [] \<Longrightarrow>
     n \<le> lnumber (lineAt_scan ls f n pos) \<and> lnumber (lineAt_scan ls f n pos) < n + int (length ls)"
proof (induction ls f n pos rule: lineAt_scan.induct)
  case (3 l l' ls f n pos)
  show ?case
  proof (cases "pos \<le> f + length l")
    case True
    then show ?thesis by simp
  next
    case False
    with 3 show ?thesis by simp
  qed
qed simp_all

lemma lineAt_scan_bounds:
  "ls \<noteq> [] \<Longrightarrow> f \<le> pos \<Longrightarrow>
     lfrom (lineAt_scan ls f n pos) \<le> pos
     \<and> (Suc pos \<le> f + sum_list (map length ls) + length ls
          \<longrightarrow> pos \<le> lto (lineAt_scan ls f n pos))"
proof (induction ls f n pos rule: lineAt_scan.induct)
  case (3 l l' ls f n pos)
  show ?case
  proof (cases "pos \<le> f + length l")
    case True
    with 3 show ?thesis by simp
  next
    case False
    with 3 show ?thesis by simp
  qed
qed simp_all

lemma lineAt_scan_text:
  "ls \<noteq> [] \<Longrightarrow>
     lto (lineAt_scan ls f n pos)
       = lfrom (lineAt_scan ls f n pos) + length (ltext (lineAt_scan ls f n pos))"
  by (induction ls f n pos rule: lineAt_scan.induct) simp_all

lemma line_scan_lineAt_scan:
  "ls \<noteq> [] \<Longrightarrow> line_scan ls f n (lnumber (lineAt_scan ls f n pos)) = lineAt_scan ls f n pos"
proof (induction ls f n pos rule: lineAt_scan.induct)
  case (3 l l' ls f n pos)
  show ?case
  proof (cases "pos \<le> f + length l")
    case True
    then show ?thesis by simp
  next
    case False
    have "n + 1 \<le> lnumber (lineAt_scan (l' # ls) (f + length l + 1) (n + 1) pos)"
      using lineAt_scan_number [of "l' # ls" "n + 1" "f + length l + 1" pos] by simp
    with False 3 show ?thesis by simp
  qed
qed simp_all

text \<open>Inside its range \<open>line\<close> returns a line that lies within the document.\<close>

lemma line_Inr:
  assumes "1 \<le> n" "n \<le> lines d"
  shows "\<exists>L. line d (Num (of_int n)) = Inr L \<and> lnumber L = n \<and> llength L = length (ltext L)
           \<and> lfrom L + llength L \<le> length d"
proof -
  let ?L = "line_scan (doc_lines d) 0 1 n"
  have ne: "doc_lines d \<noteq> []" by (rule doc_lines_nonempty)
  have b: "lto ?L = lfrom ?L + length (ltext ?L)"
    "Suc (lto ?L) \<le> 0 + sum_list (map length (doc_lines d)) + length (doc_lines d)"
    using line_scan_bounds [OF ne, of 0 1 n] by simp_all
  have num: "lnumber ?L = n"
    using line_scan_number [OF ne, of 1 n 0] assms by (simp add: lines_def)
  have "lto ?L \<le> length d" using b(2) doc_lines_length [of d] by simp
  with b(1) num assms show ?thesis by (simp add: line_def llength_def)
qed

text \<open>
  Inside the document \<open>lineAt\<close> returns the line around the position, and \<open>line\<close> finds
  the same line by its number.
\<close>

lemma lineAt_Inr:
  assumes "pos \<le> length d"
  shows "\<exists>L. lineAt d pos = Inr L \<and> 1 \<le> lnumber L \<and> lnumber L \<le> lines d
           \<and> line d (Num (of_int (lnumber L))) = Inr L \<and> lfrom L \<le> pos \<and> pos \<le> lto L
           \<and> lto L = lfrom L + length (ltext L)"
proof -
  let ?L = "lineAt_scan (doc_lines d) 0 1 pos"
  have ne: "doc_lines d \<noteq> []" by (rule doc_lines_nonempty)
  have n: "1 \<le> lnumber ?L" "lnumber ?L \<le> lines d"
    using lineAt_scan_number [OF ne, of 1 0 pos] by (simp_all add: lines_def)
  have "line d (Num (of_int (lnumber ?L))) = Inr ?L"
    using n line_scan_lineAt_scan [OF ne, of 0 1 pos] by (simp add: line_def)
  moreover have "lfrom ?L \<le> pos \<and> pos \<le> lto ?L"
    using lineAt_scan_bounds [OF ne, of 0 pos 1] doc_lines_length [of d] assms by simp
  ultimately show ?thesis
    using n assms lineAt_scan_text [OF ne, of 0 1 pos] by (simp add: lineAt_def)
qed

section \<open>Properties of the goto-line grammar\<close>

lemma digits_prefix:
  "list_all is_digit ds \<Longrightarrow> (\<And>c r'. r = c # r' \<Longrightarrow> \<not> is_digit c) \<Longrightarrow>
     takeWhile is_digit (ds @ r) = ds \<and> dropWhile is_digit (ds @ r) = r"
  by (induction ds) (auto, (cases r; simp)+)

lemma not_digit_chars [simp]:
  "\<not> is_digit CHR '':''" "\<not> is_digit CHR ''%''" "\<not> is_digit CHR ''+''" "\<not> is_digit CHR ''-''"
  by (simp_all add: is_digit_def)

lemma takeWhile_digits: "list_all is_digit (takeWhile is_digit s)"
  by (induction s) auto

lemma opt_sign_parts:
  "opt_sign s = (sg, r) \<Longrightarrow>
     s = (case sg of None \<Rightarrow> [] | Some c \<Rightarrow> [c]) @ r
     \<and> (sg = None \<or> sg = Some CHR ''+'' \<or> sg = Some CHR ''-'')"
  by (auto simp: opt_sign_def split: list.splits if_splits)

lemma opt_digits_parts:
  "opt_digits s = (g, r) \<Longrightarrow>
     s = group_text g @ r \<and> list_all is_digit (group_text g) \<and> g \<noteq> Some []"
  by (auto simp: opt_digits_def group_text_def takeWhile_digits split: if_splits)

lemma opt_column_parts:
  "opt_column s = (g, r) \<Longrightarrow>
     s = group_text g @ r
     \<and> (g = None \<or> (\<exists>ds. ds \<noteq> [] \<and> list_all is_digit ds \<and> g = Some (CHR '':'' # ds)))"
  by (auto simp: opt_column_def group_text_def takeWhile_digits split: list.splits if_splits)

lemma opt_percent_parts:
  "opt_percent s = (g, r) \<Longrightarrow> s = group_text g @ r \<and> (g = None \<or> g = Some ''%'')"
  by (auto simp: opt_percent_def group_text_def split: list.splits if_splits)

text \<open>A match splits the input into the texts of its four groups.\<close>

lemma exec_re_parts:
  assumes "exec_re input = Some (sign, ln', cl, percent)"
  shows "input = (case sign of None \<Rightarrow> [] | Some c \<Rightarrow> [c])
                   @ group_text ln' @ group_text cl @ group_text percent"
    and "sign = None \<or> sign = Some CHR ''+'' \<or> sign = Some CHR ''-''"
    and "list_all is_digit (group_text ln')" and "ln' \<noteq> Some []"
    and "cl = None \<or> (\<exists>ds. ds \<noteq> [] \<and> list_all is_digit ds \<and> cl = Some (CHR '':'' # ds))"
    and "percent = None \<or> percent = Some ''%''"
proof -
  obtain r1 where s: "opt_sign input = (sign, r1)"
    using assms by (auto simp: exec_re_def Let_def split: prod.splits if_splits)
  obtain r2 where d: "opt_digits r1 = (ln', r2)"
    using assms s by (auto simp: exec_re_def Let_def split: prod.splits if_splits)
  obtain r3 where c: "opt_column r2 = (cl, r3)"
    using assms s d by (auto simp: exec_re_def Let_def split: prod.splits if_splits)
  have p: "opt_percent r3 = (percent, [])"
    using assms s d c by (auto simp: exec_re_def Let_def split: prod.splits if_splits)
  note S = opt_sign_parts [OF s] and D = opt_digits_parts [OF d]
    and C = opt_column_parts [OF c] and P = opt_percent_parts [OF p]
  show "input = (case sign of None \<Rightarrow> [] | Some c \<Rightarrow> [c])
                  @ group_text ln' @ group_text cl @ group_text percent"
    using S D C P by simp
  show "sign = None \<or> sign = Some CHR ''+'' \<or> sign = Some CHR ''-''" using S by simp
  show "list_all is_digit (group_text ln')" "ln' \<noteq> Some []" using D by simp_all
  show "cl = None \<or> (\<exists>ds. ds \<noteq> [] \<and> list_all is_digit ds \<and> cl = Some (CHR '':'' # ds))"
    using C by simp
  show "percent = None \<or> percent = Some ''%''" using P by simp
qed

lemma exec_re_grammar: "exec_re input = Some g \<Longrightarrow> grammar input"
proof -
  assume a: "exec_re input = Some g"
  obtain sign ln' cl percent where g: "g = (sign, ln', cl, percent)" by (cases g) auto
  note P = exec_re_parts [OF a [unfolded g]]
  show ?thesis
    unfolding grammar_def
    apply (rule exI [of _ "case sign of None \<Rightarrow> [] | Some c \<Rightarrow> [c]"])
    apply (rule exI [of _ "group_text ln'"])
    apply (rule exI [of _ "group_text cl"])
    apply (rule exI [of _ "group_text percent"])
    using P by (auto simp: group_text_def)
qed

text \<open>What the four readers do on an input assembled from the four parts.\<close>

lemma opt_percent_of:
  "pc = [] \<or> pc = ''%'' \<Longrightarrow> opt_percent pc = ((if pc = [] then None else Some ''%''), [])"
  by (auto simp: opt_percent_def)

lemma opt_column_of:
  assumes "cs = [] \<or> (\<exists>ds'. ds' \<noteq> [] \<and> list_all is_digit ds' \<and> cs = CHR '':'' # ds')"
    and "pc = [] \<or> pc = ''%''"
  shows "opt_column (cs @ pc) = ((if cs = [] then None else Some cs), pc)"
proof (cases "cs = []")
  case True
  with assms(2) show ?thesis by (auto simp: opt_column_def)
next
  case False
  then obtain ds' where ds: "ds' \<noteq> []" "list_all is_digit ds'" "cs = CHR '':'' # ds'"
    using assms(1) by auto
  have "takeWhile is_digit (ds' @ pc) = ds' \<and> dropWhile is_digit (ds' @ pc) = pc"
    using assms(2) by (intro digits_prefix [OF ds(2)]) auto
  with ds show ?thesis by (simp add: opt_column_def)
qed

lemma opt_digits_of:
  assumes "list_all is_digit ds"
    and "cs = [] \<or> (\<exists>ds'. ds' \<noteq> [] \<and> list_all is_digit ds' \<and> cs = CHR '':'' # ds')"
    and "pc = [] \<or> pc = ''%''"
  shows "opt_digits (ds @ cs @ pc) = ((if ds = [] then None else Some ds), cs @ pc)"
proof -
  have "takeWhile is_digit (ds @ cs @ pc) = ds \<and> dropWhile is_digit (ds @ cs @ pc) = cs @ pc"
    using assms(2,3) by (intro digits_prefix [OF assms(1)]) auto
  then show ?thesis by (simp add: opt_digits_def)
qed

lemma opt_sign_of:
  assumes "sg = [] \<or> sg = ''+'' \<or> sg = ''-''" and "list_all is_digit ds"
    and "cs = [] \<or> (\<exists>ds'. ds' \<noteq> [] \<and> list_all is_digit ds' \<and> cs = CHR '':'' # ds')"
    and "pc = [] \<or> pc = ''%''"
  shows "opt_sign (sg @ ds @ cs @ pc) = ((if sg = [] then None else Some (hd sg)), ds @ cs @ pc)"
proof (cases "sg = []")
  case False
  with assms(1) show ?thesis by (auto simp: opt_sign_def)
next
  case True
  have "\<And>c r. ds @ cs @ pc = c # r \<Longrightarrow> c \<noteq> CHR ''+'' \<and> c \<noteq> CHR ''-''"
    using assms(2,3,4) by (cases ds) (auto simp: is_digit_def)
  with True show ?thesis by (auto simp: opt_sign_def split: list.splits)
qed

lemma grammar_exec_re:
  assumes "grammar input"
  shows "\<exists>g. exec_re input = Some g"
proof -
  from assms obtain sg ds cs pc where i: "input = sg @ ds @ cs @ pc"
    and sg: "sg = [] \<or> sg = ''+'' \<or> sg = ''-''" and ds: "list_all is_digit ds"
    and cs: "cs = [] \<or> (\<exists>ds'. ds' \<noteq> [] \<and> list_all is_digit ds' \<and> cs = CHR '':'' # ds')"
    and pc: "pc = [] \<or> pc = ''%''"
    unfolding grammar_def by blast
  show ?thesis
    unfolding exec_re_def i
    by (simp add: opt_sign_of [OF sg ds cs pc] opt_digits_of [OF ds cs pc]
        opt_column_of [OF cs pc] opt_percent_of [OF pc])
qed

text \<open>The matcher accepts exactly the language of the grammar.\<close>

lemma exec_re_None_iff: "exec_re input = None \<longleftrightarrow> \<not> grammar input"
  using exec_re_grammar [of input] grammar_exec_re [of input] by (cases "exec_re input") auto

lemma exec_re_signed_percent:
  assumes "sg = CHR ''+'' \<or> sg = CHR ''-''" "ds \<noteq> []" "list_all is_digit ds"
  shows "exec_re (sg # ds @ ''%'') = Some (Some sg, Some ds, None, Some ''%'')"
proof -
  have t: "takeWhile is_digit (ds @ ''%'') = ds \<and> dropWhile is_digit (ds @ ''%'') = ''%''"
    by (rule digits_prefix [OF assms(3)]) simp
  show ?thesis using assms(1,2) t
    by (auto simp: exec_re_def opt_sign_def opt_digits_def opt_column_def opt_percent_def)
qed

section \<open>Properties of the resolved line\<close>

text \<open>Reading the digits from the left gives the number they denote.\<close>

lemma to_number_fold:
  "foldl (\<lambda>a c. 10 * a + (of_char c - 48)) a ds = a * 10 ^ length ds + decimal_value ds"
  by (induction ds arbitrary: a) (simp_all add: algebra_simps)

lemma to_number_decimal_value: "to_number ds = decimal_value ds"
  by (simp add: to_number_def to_number_fold)

lemma sign_factor_cases: "sign_factor sign = 1 \<or> sign_factor sign = - 1"
  by (simp add: sign_factor_def)

text \<open>
  The operations of \<^verbatim>\<open>go\<close> keep whole numbers whole: a sum or a product of integers
  is rounded to an integer or to an infinity.
\<close>

lemma whole_add:
  assumes "(\<exists>k. a = Num (of_int k)) \<or> a = PosInf \<or> a = NegInf"
  shows "(\<exists>k. num_add a (Num (of_int c)) = Num (of_int k))
       \<or> num_add a (Num (of_int c)) = PosInf \<or> num_add a (Num (of_int c)) = NegInf"
proof -
  consider k where "a = Num (of_int k)" | "a = PosInf" | "a = NegInf" using assms by blast
  then show ?thesis
  proof cases
    case 1
    have "num_add a (Num (of_int c)) = fl (of_int (k + c))" by (simp add: 1 num_add_def)
    then show ?thesis using fl_of_int [of "k + c"] by simp
  next
    case 2
    then show ?thesis by (simp add: num_add_def)
  next
    case 3
    then show ?thesis by (simp add: num_add_def)
  qed
qed

lemma whole_mul_sign:
  assumes "(\<exists>k. a = Num (of_int k)) \<or> a = PosInf \<or> a = NegInf" and "s = 1 \<or> s = - 1"
  shows "(\<exists>k. num_mul a (Num (of_int s)) = Num (of_int k))
       \<or> num_mul a (Num (of_int s)) = PosInf \<or> num_mul a (Num (of_int s)) = NegInf"
proof -
  consider k where "a = Num (of_int k)" | "a = PosInf" | "a = NegInf" using assms by blast
  then show ?thesis
  proof cases
    case 1
    have "num_mul a (Num (of_int s)) = fl (of_int (k * s))" by (simp add: 1 num_mul_def)
    then show ?thesis using fl_of_int [of "k * s"] by simp
  next
    case 2
    then show ?thesis using assms(2) by (auto simp: num_mul_def)
  next
    case 3
    then show ?thesis using assms(2) by (auto simp: num_mul_def)
  qed
qed

lemma whole_round:
  assumes "a \<noteq> NaN"
  shows "(\<exists>k. Math_round a = Num (of_int k)) \<or> Math_round a = PosInf \<or> Math_round a = NegInf"
  using assms by (cases a) (simp_all add: Math_round_def)

text \<open>No operation of the percentage arithmetic yields NaN.\<close>

lemma div_100_not_NaN: "num_div (fl x) (Num 100) \<noteq> NaN"
  by (cases "fl x") (simp_all add: num_div_def fl_not_NaN)

lemma mul_sign_not_NaN: "a \<noteq> NaN \<Longrightarrow> s = 1 \<or> s = - 1 \<Longrightarrow> num_mul a (Num (of_int s)) \<noteq> NaN"
  by (cases a) (auto simp: num_mul_def fl_not_NaN)

lemma add_finite_not_NaN: "a \<noteq> NaN \<Longrightarrow> num_add a (Num r) \<noteq> NaN"
  by (cases a) (simp_all add: num_add_def fl_not_NaN)

lemma lines_mul_not_NaN: "a \<noteq> NaN \<Longrightarrow> 1 \<le> L \<Longrightarrow> num_mul (Num (of_int L)) a \<noteq> NaN"
  by (cases a) (auto simp: num_mul_def fl_not_NaN)

lemma line_fraction_finite:
  assumes "1 \<le> cur" "cur \<le> L"
  shows "\<exists>r. num_div (Num (of_int cur)) (Num (of_int L)) = Num r"
proof -
  have "\<bar>of_int cur / of_int L :: rat\<bar> \<le> 1" using assms by simp
  also have "(1::rat) = 2 powi 0" by simp
  also have "\<dots> < 2 powi 1023" by (rule power_int_strict_increasing) simp_all
  finally obtain r where "fl (of_int cur / of_int L) = Num r" using fl_finite by blast
  then show ?thesis using assms by (simp add: num_div_def)
qed

text \<open>
  So the line that \<^verbatim>\<open>go\<close> resolves is a whole number or an infinity, whatever the
  input, and the clamp turns it into the number of a line of the document.
\<close>

lemma target_line_whole:
  assumes "1 \<le> cur" "cur \<le> L"
  shows "(\<exists>k. target_line sign ln' percent cur L = Num (of_int k))
       \<or> target_line sign ln' percent cur L = PosInf
       \<or> target_line sign ln' percent cur L = NegInf"
proof (cases ln')
  case None
  then show ?thesis by (simp add: target_line_def)
next
  case (Some ds)
  define x :: rat where "x = of_nat (to_number ds)"
  have x: "x = of_int (int (to_number ds))" by (simp add: x_def)
  have w: "(\<exists>k. fl x = Num (of_int k)) \<or> fl x = PosInf \<or> fl x = NegInf"
    unfolding x by (rule fl_of_int)
  note s = sign_factor_cases [of sign]
  have L: "1 \<le> L" using assms by simp
  show ?thesis
  proof (cases "percent = None")
    case True
    show ?thesis
    proof (cases "sign = None")
      case True
      with \<open>percent = None\<close> Some w show ?thesis by (simp add: target_line_def x_def)
    next
      case False
      have "target_line sign ln' percent cur L
          = num_add (num_mul (fl x) (Num (of_int (sign_factor sign)))) (Num (of_int cur))"
        using False \<open>percent = None\<close> Some by (simp add: target_line_def x_def)
      then show ?thesis using whole_add [OF whole_mul_sign [OF w s]] by simp
    qed
  next
    case False
    obtain r where r: "num_div (Num (of_int cur)) (Num (of_int L)) = Num r"
      using line_fraction_finite [OF assms] by blast
    define pc where "pc = (if sign \<noteq> None
        then num_add (num_mul (num_div (fl x) (Num 100)) (Num (of_int (sign_factor sign))))
               (num_div (Num (of_int cur)) (Num (of_int L)))
        else num_div (fl x) (Num 100))"
    have "pc \<noteq> NaN"
      unfolding pc_def r
      using add_finite_not_NaN [OF mul_sign_not_NaN [OF div_100_not_NaN s]] div_100_not_NaN
      by simp
    then have n: "num_mul (Num (of_int L)) pc \<noteq> NaN" using L by (rule lines_mul_not_NaN)
    have "target_line sign ln' percent cur L = Math_round (num_mul (Num (of_int L)) pc)"
      using False Some by (simp add: target_line_def x_def pc_def)
    then show ?thesis using whole_round [OF n] by simp
  qed
qed

lemma clamp_line:
  assumes "1 \<le> L" and "(\<exists>k. t = Num (of_int k)) \<or> t = PosInf \<or> t = NegInf"
  shows "\<exists>k. Math_max (Num 1) (Math_min (Num (of_int L)) t) = Num (of_int k) \<and> 1 \<le> k \<and> k \<le> L"
proof -
  consider k where "t = Num (of_int k)" | "t = PosInf" | "t = NegInf" using assms(2) by blast
  then show ?thesis
  proof cases
    case 1
    have "Math_max (Num 1) (Math_min (Num (of_int L)) t) = Num (of_int (max 1 (min L k)))"
      by (simp add: 1 Math_max_def Math_min_def of_int_max of_int_min)
    moreover have "1 \<le> max 1 (min L k)" "max 1 (min L k) \<le> L" using assms(1) by simp_all
    ultimately show ?thesis by blast
  next
    case 2
    have "Math_max (Num 1) (Math_min (Num (of_int L)) t) = Num (of_int L)"
      using assms(1) by (simp add: 2 Math_max_def Math_min_def max_def)
    with assms(1) show ?thesis by blast
  next
    case 3
    have "Math_max (Num 1) (Math_min (Num (of_int L)) t) = Num (of_int 1)"
      by (simp add: 3 Math_max_def Math_min_def)
    with assms(1) show ?thesis by blast
  qed
qed

lemma clamp_inside:
  assumes "1 \<le> k" "k \<le> L"
  shows "Math_max (Num 1) (Math_min (Num (of_int L)) (Num (of_int k))) = Num (of_int k)"
  using assms by (simp add: Math_max_def Math_min_def min_def max_def)

text \<open>An integer of at most 52 bits is a number.\<close>

lemma fl_small_int:
  assumes "0 \<le> n" "n < 2 ^ 52"
  shows "fl (of_int n) = Num (of_int n)"
proof (cases "n = 0")
  case True
  then show ?thesis by (simp add: fl_def)
next
  case False
  define x :: rat where "x = of_int n"
  define e where "e = fl_exp x"
  have "1 \<le> n" using assms False by simp
  then have "(of_int 1 :: rat) \<le> of_int n" by (simp only: of_int_le_iff)
  then have x1: "1 \<le> x" by (simp add: x_def)
  have "(of_int n :: rat) < of_int (2 ^ 52)" using assms(2) by (simp only: of_int_less_iff)
  then have "x < 2 powi 52" by (simp add: x_def)
  then have "ilog2 x < 52" using x1 by (intro ilog2_less) simp_all
  moreover have "0 \<le> ilog2 x" using x1 by (rule ilog2_nonneg)
  ultimately have e: "0 \<le> e" "e < 52" using x1 by (simp_all add: e_def fl_exp_def)
  have "(2::rat) powi (e - 52) = 2 powi (- (52 - e))" by simp
  also have "\<dots> = 1 / 2 powi (52 - e)" by (rule power_int_minus_divide)
  also have "\<dots> = 1 / 2 ^ nat (52 - e)" using e by (simp add: power_int_nonneg_exp)
  finally have q: "(2::rat) powi (e - 52) = 1 / 2 ^ nat (52 - e)" .
  have "\<bar>x\<bar> / 2 powi (e - 52) = of_int (n * 2 ^ nat (52 - e))"
    using x1 unfolding q by (simp add: x_def)
  then have m: "fl_mant x = n * 2 ^ nat (52 - e)"
    unfolding fl_mant_def e_def [symmetric] by (simp only: rne_of_int)
  have "of_int (fl_mant x) * 2 powi (e - 52) = x" unfolding m q by (simp add: x_def)
  then have "fl x = Num x"
    using x1 e unfolding fl_def e_def [symmetric] by simp
  then show ?thesis by (simp add: x_def)
qed

text \<open>The number for a rational above a small integer is not below that integer.\<close>

lemma fl_above:
  assumes "of_nat len + 1 \<le> x" "len < 2 ^ 52"
  shows "Math_min (fl x) (Num (of_nat len)) = Num (of_nat len)"
proof (cases "fl x")
  case (Num y)
  have pw: "(2::rat) ^ 52 = 4503599627370496" "(2::rat) ^ 53 = 9007199254740992"
    "(2::rat) ^ 113 = 10384593717069655257060992658440192" by simp_all
  have "(of_nat len :: rat) < of_nat (2 ^ 52)" using assms(2) by (simp only: of_nat_less_iff)
  then have l: "(of_nat len :: rat) < 2 ^ 52" by simp
  have l0: "(0::rat) \<le> of_nat len" by simp
  have "\<bar>y - x\<bar> \<le> \<bar>x\<bar> / 2 ^ 53 + 2 powi (- 1075)" by (rule fl_error [OF Num])
  then have "\<bar>y - x\<bar> \<le> \<bar>x\<bar> / 2 ^ 53 + 1 / 2 ^ 113" using eta_small by linarith
  then have "of_nat len \<le> y" using assms(1) l l0 unfolding pw by linarith
  then show ?thesis by (simp add: Num Math_min_def)
next
  case PosInf
  then show ?thesis by (simp add: Math_min_def)
next
  case NegInf
  then have "x \<le> 0" by (auto simp: fl_def split: if_splits)
  then show ?thesis using assms(1) by linarith
next
  case NaN
  then show ?thesis by (simp add: fl_not_NaN)
qed

text \<open>
  The clamp of the column in \<^verbatim>\<open>go\<close>, computed on numbers: for a line of fewer than
  \<open>2 ^ 52\<close> characters it is the minimum of the natural numbers.
\<close>

lemma column_clamp_number:
  assumes "len < 2 ^ 52"
  shows "Math_max (Num 0) (Math_min (fl (of_nat col)) (Num (of_nat len)))
       = Num (of_nat (max 0 (min col len)))"
proof (cases "col \<le> len")
  case True
  then have "int col < 2 ^ 52" using assms by simp
  then have "fl (of_int (int col)) = Num (of_int (int col))" by (intro fl_small_int) simp_all
  then have "fl (of_nat col) = Num (of_nat col)" by simp
  then show ?thesis using True by (simp add: Math_max_def Math_min_def min_def max_def)
next
  case False
  then have "len + 1 \<le> col" by simp
  then have "(of_nat (len + 1) :: rat) \<le> of_nat col" by (simp only: of_nat_le_iff)
  then have "(of_nat len + 1 :: rat) \<le> of_nat col" by simp
  from fl_above [OF this assms] show ?thesis using False
    by (simp add: Math_max_def min_def max_def)
qed

text \<open>
  The rounding of the operations shows in the result. \<open>29%\<close> of a document of 50 lines:
  the double for \<open>29 / 100\<close> is below \<open>0.29\<close>, the product is the double just below
  \<open>14.5\<close>, and the resolved line is 14 where the exact value \<open>14.5\<close> rounds to 15.
\<close>

lemma target_line_29_percent_of_50:
  "target_line None (Some ''29'') (Some ''%'') 1 50 = Num 14
   \<and> round (50 * (29 / 100) :: rat) = 15"
proof -
  have "target_line None (Some ''29'') (Some ''%'') 1 50 = Num 14" by code_simp
  moreover have "round (50 * (29 / 100) :: rat) = 15" by (simp add: round_def)
  ultimately show ?thesis ..
qed

section \<open>The goto-line dialog: what \<open>go\<close> does\<close>

text \<open>
  C2, as the code has it. For every input that matches the grammar without a group of
  line digits (the empty input, or only a sign, a column, a percent sign), the target
  line is the line the cursor is on, and the cursor is put on that line at the given
  column, clamped to the line's length. When the column is absent too, the cursor is put
  at the start of the current line, which is at or before the place it had.
\<close>

theorem goto_without_magnitude:
  assumes "exec_re input = Some (sign, None, cl, percent)"
    and "lineAt (doc v) (head (main (selection v))) = Inr startLine"
  shows "target_line sign None percent (lnumber startLine) (lines (doc v))
           = Num (of_int (lnumber startLine))
       \<and> go v input =
           Inr (v\<lparr>selection := cursor (lfrom startLine + min (column cl) (llength startLine)),
                  dialogField := False, hasFocus := True\<rparr>)
       \<and> (cl = None \<longrightarrow>
            go v input =
              Inr (v\<lparr>selection := cursor (lfrom startLine),
                     dialogField := False, hasFocus := True\<rparr>))
       \<and> lfrom startLine \<le> head (main (selection v))"
proof -
  have p: "head (main (selection v)) \<le> length (doc v)"
    using assms(2) by (auto simp: lineAt_def split: if_splits)
  obtain L where L: "lineAt (doc v) (head (main (selection v))) = Inr L"
      "1 \<le> lnumber L" "lnumber L \<le> lines (doc v)"
      "line (doc v) (Num (of_int (lnumber L))) = Inr L"
      "lfrom L \<le> head (main (selection v))"
    using lineAt_Inr [OF p] by blast
  have eq: "L = startLine" using L(1) assms(2) by simp
  have t: "target_line sign None percent (lnumber startLine) (lines (doc v))
      = Num (of_int (lnumber startLine))"
    by (simp add: target_line_def)
  have c: "Math_max (Num 1) (Math_min (Num (of_int (lines (doc v))))
             (Num (of_int (lnumber startLine)))) = Num (of_int (lnumber startLine))"
    using L(2,3) eq by (simp add: clamp_inside)
  have g: "go v input =
      Inr (v\<lparr>selection := cursor (lfrom startLine + min (column cl) (llength startLine)),
             dialogField := False, hasFocus := True\<rparr>)"
    using assms L(4) eq by (simp add: go_def t c)
  show ?thesis using t g L(5) eq by (auto simp: column_def)
qed

theorem goto_without_magnitude_witness:
  "exec_re ''+:2%'' = Some (Some CHR ''+'', None, Some '':2'', Some ''%'')
   \<and> lineAt ''ab\<newline>hello'' 7 = Inr \<lparr>lfrom = 3, lto = 8, lnumber = 2, ltext = ''hello''\<rparr>
   \<and> go \<lparr>doc = ''ab\<newline>hello'', selection = cursor 7, dialogField = True, hasFocus = False\<rparr> ''+:2%''
       = Inr \<lparr>doc = ''ab\<newline>hello'', selection = cursor 5, dialogField = False, hasFocus = True\<rparr>"
proof -
  have e: "exec_re ''+:2%'' = Some (Some CHR ''+'', None, Some '':2'', Some ''%'')"
    by code_simp
  have l: "lineAt ''ab\<newline>hello'' 7 = Inr \<lparr>lfrom = 3, lto = 8, lnumber = 2, ltext = ''hello''\<rparr>"
    by code_simp
  have c: "column (Some '':2'') = 2" by code_simp
  show ?thesis
    using goto_without_magnitude [of "''+:2%''" "Some CHR ''+''" "Some '':2''" "Some ''%''"
        "\<lparr>doc = ''ab\<newline>hello'', selection = cursor 7, dialogField = True, hasFocus = False\<rparr>"
        "\<lparr>lfrom = 3, lto = 8, lnumber = 2, ltext = ''hello''\<rparr>"] e l
    by (simp add: c llength_def cursor_def)
qed

text \<open>
  C2, as the specification states it, fails: the empty input matches the grammar with
  neither line digits nor column, and \<open>go\<close> moves a cursor at offset 3 of the one-line
  document \<open>hello\<close> to offset 0.
\<close>

theorem goto_empty_input_moves_cursor:
  "head (main (selection
     \<lparr>doc = ''hello'', selection = cursor 3, dialogField = True, hasFocus = False\<rparr>)) = 3
   \<and> exec_re '''' = Some (None, None, None, None)
   \<and> go \<lparr>doc = ''hello'', selection = cursor 3, dialogField = True, hasFocus = False\<rparr> ''''
       = Inr \<lparr>doc = ''hello'', selection = cursor 0, dialogField = False, hasFocus = True\<rparr>"
  by (simp add: go_def exec_re_def opt_sign_def opt_digits_def opt_column_def opt_percent_def
      is_digit_def lineAt_def line_def lines_def cursor_def target_line_def column_def
      newline_def llength_def Math_max_def Math_min_def)

text \<open>
  C3, as the code has it. For an input made of a sign, a group of digits and the percent
  sign, the magnitude is the number the digits denote, and the line resolved by \<open>go\<close>
  is \<^verbatim>\<open>Math.round\<close> of the product, in double-precision arithmetic, of the number of
  lines and the sum of magnitude / 100 times the sign and
  currentLine / totalLines, each of the operations rounded to the nearest double. This
  is the number
  \<open>round (totalLines * (currentLine / totalLines + sign * magnitude / 100))\<close> of the
  exact formula whenever the current line is a line of the document,
  \<open>totalLines * (magnitude + 100)\<close> is at most \<open>2 ^ 48\<close>, and the exact value is no
  tie, that is \<open>100 * currentLine + sign * magnitude * totalLines\<close> does not end in
  the digits 50. The resolved line, clamped into the document, is the line \<open>go\<close> puts
  the cursor on, at column 0.
\<close>

theorem goto_signed_percent:
  assumes "sg = CHR ''+'' \<or> sg = CHR ''-''" and "ds \<noteq> []" and "list_all is_digit ds"
  shows "exec_re (sg # ds @ ''%'') = Some (Some sg, Some ds, None, Some ''%'')
       \<and> to_number ds = decimal_value ds
       \<and> target_line (Some sg) (Some ds) (Some ''%'') currentLine totalLines
           = Math_round (num_mul (Num (of_int totalLines))
               (num_add (num_mul (num_div (fl (of_nat (decimal_value ds))) (Num 100))
                                 (Num (of_int (sign_factor (Some sg)))))
                        (num_div (Num (of_int currentLine)) (Num (of_int totalLines)))))
       \<and> (1 \<le> currentLine \<and> currentLine \<le> totalLines
            \<and> totalLines * (int (decimal_value ds) + 100) \<le> 2 ^ 48
            \<and> (100 * currentLine + sign_factor (Some sg) * int (decimal_value ds) * totalLines)
                mod 100 \<noteq> 50
          \<longrightarrow> target_line (Some sg) (Some ds) (Some ''%'') currentLine totalLines
                = Num (of_int (round (of_int totalLines *
                    (of_int currentLine / of_int totalLines
                     + of_int (sign_factor (Some sg)) * of_nat (decimal_value ds) / 100) :: rat))))
       \<and> (lineAt (doc v) (head (main (selection v))) = Inr startLine
            \<and> currentLine = lnumber startLine \<and> totalLines = lines (doc v)
          \<longrightarrow> (\<exists>docLine.
                 line (doc v) (Math_max (Num 1) (Math_min (Num (of_int totalLines))
                     (target_line (Some sg) (Some ds) (Some ''%'') currentLine totalLines)))
                   = Inr docLine
               \<and> 1 \<le> lnumber docLine \<and> lnumber docLine \<le> totalLines
               \<and> go v (sg # ds @ ''%'') =
                   Inr (v\<lparr>selection := cursor (lfrom docLine),
                          dialogField := False, hasFocus := True\<rparr>)))"
proof -
  let ?t = "target_line (Some sg) (Some ds) (Some ''%'') currentLine totalLines"
  note e = exec_re_signed_percent [OF assms]
  note m = to_number_decimal_value [of ds]
  have t: "?t = Math_round (num_mul (Num (of_int totalLines))
               (num_add (num_mul (num_div (fl (of_nat (decimal_value ds))) (Num 100))
                                 (Num (of_int (sign_factor (Some sg)))))
                        (num_div (Num (of_int currentLine)) (Num (of_int totalLines)))))"
    by (simp add: target_line_def m)
  have x: "?t = Num (of_int (round (of_int totalLines *
                    (of_int currentLine / of_int totalLines
                     + of_int (sign_factor (Some sg)) * of_nat (decimal_value ds) / 100) :: rat)))"
    if c: "1 \<le> currentLine" "currentLine \<le> totalLines"
      and h: "totalLines * (int (decimal_value ds) + 100) \<le> 2 ^ 48"
      and tie: "(100 * currentLine + sign_factor (Some sg) * int (decimal_value ds) * totalLines)
                mod 100 \<noteq> 50"
  proof -
    have "(of_int (totalLines * (int (decimal_value ds) + 100)) :: rat) \<le> of_int (2 ^ 48)"
      using h by (simp only: of_int_le_iff)
    then have h': "of_int totalLines * (of_nat (decimal_value ds) + 100) \<le> (2::rat) ^ 48"
      by simp
    show ?thesis
      unfolding t by (rule percent_exact [OF c h' sign_factor_cases tie])
  qed
  have g: "\<exists>docLine.
        line (doc v) (Math_max (Num 1) (Math_min (Num (of_int totalLines)) ?t)) = Inr docLine
      \<and> 1 \<le> lnumber docLine \<and> lnumber docLine \<le> totalLines
      \<and> go v (sg # ds @ ''%'') =
          Inr (v\<lparr>selection := cursor (lfrom docLine), dialogField := False, hasFocus := True\<rparr>)"
    if s: "lineAt (doc v) (head (main (selection v))) = Inr startLine"
      and c: "currentLine = lnumber startLine" "totalLines = lines (doc v)"
  proof -
    have p: "head (main (selection v)) \<le> length (doc v)"
      using s by (auto simp: lineAt_def split: if_splits)
    have b: "1 \<le> currentLine" "currentLine \<le> totalLines"
      using lineAt_Inr [OF p] s c by auto
    then have "1 \<le> totalLines" by simp
    from clamp_line [OF this target_line_whole [OF b]] obtain k where
      k: "Math_max (Num 1) (Math_min (Num (of_int totalLines)) ?t) = Num (of_int k)"
        "1 \<le> k" "k \<le> totalLines"
      by blast
    obtain docLine where d: "line (doc v) (Num (of_int k)) = Inr docLine" "lnumber docLine = k"
      using line_Inr [of k "doc v"] k(2,3) c(2) by blast
    have "go v (sg # ds @ ''%'') =
        Inr (v\<lparr>selection := cursor (lfrom docLine), dialogField := False, hasFocus := True\<rparr>)"
      using e s d(1) k(1) c by (simp add: go_def column_def)
    with d k show ?thesis by simp
  qed
  from e m t x g show ?thesis by blast
qed

text \<open>
  The scenario of the specification: \<open>-10%\<close> on line 40 of a document of 200 lines.
  The magnitude is 10, the exact value 20 is no tie, so the resolved line is 20, and
  \<open>go\<close> puts the cursor at the start of line 20. And \<open>+37%\<close> on line 3 of 7 lines: the
  exact value is \<open>5.59\<close>, the resolved line is 6.
\<close>

theorem goto_signed_percent_witness:
  "(CHR ''-'' = CHR ''+'' \<or> CHR ''-'' = CHR ''-'') \<and> ''10'' \<noteq> [] \<and> list_all is_digit ''10''
   \<and> exec_re ''-10%'' = Some (Some CHR ''-'', Some ''10'', None, Some ''%'')
   \<and> to_number ''10'' = 10
   \<and> (1::int) \<le> 40 \<and> (40::int) \<le> 200
   \<and> (200::int) * (int (decimal_value ''10'') + 100) \<le> 2 ^ 48
   \<and> (100 * 40 + sign_factor (Some CHR ''-'') * int (decimal_value ''10'') * 200) mod 100 \<noteq> 50
   \<and> target_line (Some CHR ''-'') (Some ''10'') (Some ''%'') 40 200 = Num 20
   \<and> lineAt (replicate 199 newline) 39 = Inr \<lparr>lfrom = 39, lto = 39, lnumber = 40, ltext = []\<rparr>
   \<and> lines (replicate 199 newline) = 200
   \<and> go \<lparr>doc = replicate 199 newline, selection = cursor 39, dialogField = True,
          hasFocus = False\<rparr> ''-10%''
       = Inr \<lparr>doc = replicate 199 newline, selection = cursor 19, dialogField = False,
              hasFocus = True\<rparr>
   \<and> (CHR ''+'' = CHR ''+'' \<or> CHR ''+'' = CHR ''-'') \<and> ''37'' \<noteq> [] \<and> list_all is_digit ''37''
   \<and> to_number ''37'' = 37
   \<and> (1::int) \<le> 3 \<and> (3::int) \<le> 7
   \<and> (7::int) * (int (decimal_value ''37'') + 100) \<le> 2 ^ 48
   \<and> (100 * 3 + sign_factor (Some CHR ''+'') * int (decimal_value ''37'') * 7) mod 100 \<noteq> 50
   \<and> target_line (Some CHR ''+'') (Some ''37'') (Some ''%'') 3 7 = Num 6"
proof -
  let ?v = "\<lparr>doc = replicate 199 newline, selection = cursor 39, dialogField = True,
          hasFocus = False\<rparr>"
  have l: "lineAt (replicate 199 newline) 39 = Inr \<lparr>lfrom = 39, lto = 39, lnumber = 40, ltext = []\<rparr>"
    by code_simp
  have n: "lines (replicate 199 newline) = 200" by code_simp
  have d: "list_all is_digit ''10''" by (simp add: is_digit_def)
  have m: "decimal_value ''10'' = 10" by simp
  have s: "sign_factor (Some CHR ''-'') = - 1" by (simp add: sign_factor_def)
  note T = goto_signed_percent [where sg = "CHR ''-''" and ds = "''10''"
      and totalLines = 200 and currentLine = 40 and v = ?v
      and startLine = "\<lparr>lfrom = 39, lto = 39, lnumber = 40, ltext = []\<rparr>", OF _ _ d]
  have h: "(1::int) \<le> 40 \<and> (40::int) \<le> 200
      \<and> (200::int) * (int (decimal_value ''10'') + 100) \<le> 2 ^ 48
      \<and> (100 * 40 + sign_factor (Some CHR ''-'') * int (decimal_value ''10'') * 200) mod 100 \<noteq> 50"
    by (simp add: m s)
  have e: "exec_re ''-10%'' = Some (Some CHR ''-'', Some ''10'', None, Some ''%'')"
    using T by simp
  have u: "to_number ''10'' = 10" using T m by simp
  have "target_line (Some CHR ''-'') (Some ''10'') (Some ''%'') 40 200
      = Num (of_int (round (of_int 200 * (of_int 40 / of_int 200
          + of_int (sign_factor (Some CHR ''-'')) * of_nat (decimal_value ''10'') / 100) :: rat)))"
    using T h by blast
  moreover have "round (of_int 200 * (of_int 40 / of_int 200
          + of_int (sign_factor (Some CHR ''-'')) * of_nat (decimal_value ''10'') / 100) :: rat) = 20"
    by (simp add: m s)
  ultimately have t: "target_line (Some CHR ''-'') (Some ''10'') (Some ''%'') 40 200 = Num 20"
    by simp
  have c: "Math_max (Num 1) (Math_min (Num 200) (Num 20)) = Num 20"
    by (simp add: Math_max_def Math_min_def)
  have k: "line (replicate 199 newline) (Num 20)
      = Inr \<lparr>lfrom = 19, lto = 19, lnumber = 20, ltext = []\<rparr>"
    by code_simp
  have g: "go ?v ''-10%''
      = Inr (?v\<lparr>selection := cursor 19, dialogField := False, hasFocus := True\<rparr>)"
    using T l n by (simp add: t c k cursor_def)
  have d': "list_all is_digit ''37''" by (simp add: is_digit_def)
  have m': "decimal_value ''37'' = 37" by simp
  have s': "sign_factor (Some CHR ''+'') = 1" by (simp add: sign_factor_def)
  note T' = goto_signed_percent [where sg = "CHR ''+''" and ds = "''37''"
      and totalLines = 7 and currentLine = 3 and v = ?v
      and startLine = "\<lparr>lfrom = 39, lto = 39, lnumber = 40, ltext = []\<rparr>", OF _ _ d']
  have h': "(1::int) \<le> 3 \<and> (3::int) \<le> 7
      \<and> (7::int) * (int (decimal_value ''37'') + 100) \<le> 2 ^ 48
      \<and> (100 * 3 + sign_factor (Some CHR ''+'') * int (decimal_value ''37'') * 7) mod 100 \<noteq> 50"
    by (simp add: m' s')
  have u': "to_number ''37'' = 37" using T' m' by simp
  have "target_line (Some CHR ''+'') (Some ''37'') (Some ''%'') 3 7
      = Num (of_int (round (of_int 7 * (of_int 3 / of_int 7
          + of_int (sign_factor (Some CHR ''+'')) * of_nat (decimal_value ''37'') / 100) :: rat)))"
    using T' h' by blast
  moreover have "round (of_int 7 * (of_int 3 / of_int 7
          + of_int (sign_factor (Some CHR ''+'')) * of_nat (decimal_value ''37'') / 100) :: rat) = 6"
    by (simp add: m' s' round_def floor_eq_iff)
  ultimately have t': "target_line (Some CHR ''+'') (Some ''37'') (Some ''%'') 3 7 = Num 6"
    by simp
  from h e u t l n d g d' u' h' t' show ?thesis by simp
qed

text \<open>
  C3, as the specification states it, fails on a tie. For \<open>+25%\<close> on line 2 of a
  document of 6 lines the exact value is \<open>6 * (2 / 6 + 25 / 100) = 7 / 2\<close>, which rounds
  to 4; the doubles for \<open>2 / 6\<close> and for the sum are below the exact values, the product
  is the double just below \<open>7 / 2\<close>, and the code resolves line 3: \<open>go\<close> puts the cursor
  at offset 2, the start of line 3, not at offset 3, the start of line 4.
\<close>

theorem goto_signed_percent_tie:
  "exec_re ''+25%'' = Some (Some CHR ''+'', Some ''25'', None, Some ''%'')
   \<and> target_line (Some CHR ''+'') (Some ''25'') (Some ''%'') 2 6 = Num 3
   \<and> round (of_int 6 * (of_int 2 / of_int 6
        + of_int (sign_factor (Some CHR ''+'')) * of_nat (decimal_value ''25'') / 100) :: rat) = 4
   \<and> target_line (Some CHR ''+'') (Some ''25'') (Some ''%'') 2 6
       \<noteq> Num (of_int (round (of_int 6 * (of_int 2 / of_int 6
            + of_int (sign_factor (Some CHR ''+'')) * of_nat (decimal_value ''25'') / 100) :: rat)))
   \<and> lineAt (replicate 5 newline) 1 = Inr \<lparr>lfrom = 1, lto = 1, lnumber = 2, ltext = []\<rparr>
   \<and> lines (replicate 5 newline) = 6
   \<and> go \<lparr>doc = replicate 5 newline, selection = cursor 1, dialogField = True,
          hasFocus = False\<rparr> ''+25%''
       = Inr \<lparr>doc = replicate 5 newline, selection = cursor 2, dialogField = False,
              hasFocus = True\<rparr>"
proof -
  have e: "exec_re ''+25%'' = Some (Some CHR ''+'', Some ''25'', None, Some ''%'')"
    by code_simp
  have t: "target_line (Some CHR ''+'') (Some ''25'') (Some ''%'') 2 6 = Num 3"
    by code_simp
  have r: "round (of_int 6 * (of_int 2 / of_int 6
        + of_int (sign_factor (Some CHR ''+'')) * of_nat (decimal_value ''25'') / 100) :: rat) = 4"
    by (simp add: sign_factor_def round_def)
  have l: "lineAt (replicate 5 newline) 1 = Inr \<lparr>lfrom = 1, lto = 1, lnumber = 2, ltext = []\<rparr>"
    by code_simp
  have l': "lineAt (replicate 5 newline) (Suc 0)
      = Inr \<lparr>lfrom = 1, lto = 1, lnumber = 2, ltext = []\<rparr>"
    using l by simp
  have n: "lines (replicate 5 newline) = 6" by code_simp
  have c: "Math_max (Num 1) (Math_min (Num 6) (Num 3)) = Num 3"
    by (simp add: Math_max_def Math_min_def)
  have k: "line (replicate 5 newline) (Num 3) = Inr \<lparr>lfrom = 2, lto = 2, lnumber = 3, ltext = []\<rparr>"
    by code_simp
  have g: "go \<lparr>doc = replicate 5 newline, selection = cursor 1, dialogField = True,
          hasFocus = False\<rparr> ''+25%''
       = Inr \<lparr>doc = replicate 5 newline, selection = cursor 2, dialogField = False,
              hasFocus = True\<rparr>"
    by (simp add: go_def e l' n t c k column_def cursor_def)
  show ?thesis unfolding r using e t l n g by simp
qed

text \<open>
  C4. For every input that matches the grammar, in a state whose selection head lies in
  the document, \<open>go\<close> looks up the line with the number
  \<^verbatim>\<open>Math.max(1, Math.min(totalLines, target))\<close>, which is an integer between 1 and the
  number of lines, adds the column clamped to the length of that line to the offset at
  which the line starts, and puts the cursor on the resulting position, which is at most
  the length of the document.
\<close>

theorem goto_position_in_document:
  assumes "grammar input" and "head (main (selection v)) \<le> length (doc v)"
  shows "\<exists>sign ln' cl percent startLine docLine.
           exec_re input = Some (sign, ln', cl, percent)
         \<and> lineAt (doc v) (head (main (selection v))) = Inr startLine
         \<and> Num (of_int (lnumber docLine)) =
             Math_max (Num 1) (Math_min (Num (of_int (lines (doc v))))
                        (target_line sign ln' percent (lnumber startLine) (lines (doc v))))
         \<and> 1 \<le> lnumber docLine \<and> lnumber docLine \<le> lines (doc v)
         \<and> line (doc v) (Num (of_int (lnumber docLine))) = Inr docLine
         \<and> go v input =
             Inr (v\<lparr>selection := cursor (lfrom docLine + min (column cl) (llength docLine)),
                    dialogField := False, hasFocus := True\<rparr>)
         \<and> min (column cl) (llength docLine) \<le> llength docLine
         \<and> lfrom docLine + min (column cl) (llength docLine) \<le> length (doc v)"
proof -
  obtain g where "exec_re input = Some g" using grammar_exec_re [OF assms(1)] by blast
  then obtain sign ln' cl percent where e: "exec_re input = Some (sign, ln', cl, percent)"
    by (cases g) auto
  obtain startLine where s: "lineAt (doc v) (head (main (selection v))) = Inr startLine"
      "1 \<le> lnumber startLine" "lnumber startLine \<le> lines (doc v)"
    using lineAt_Inr [OF assms(2)] by blast
  have "1 \<le> lines (doc v)" by (rule lines_ge_1)
  from clamp_line [OF this target_line_whole [OF s(2,3)]] obtain n where
    c: "Math_max (Num 1) (Math_min (Num (of_int (lines (doc v))))
          (target_line sign ln' percent (lnumber startLine) (lines (doc v)))) = Num (of_int n)"
    and n: "1 \<le> n" "n \<le> lines (doc v)"
    by blast
  obtain docLine where d: "line (doc v) (Num (of_int n)) = Inr docLine" "lnumber docLine = n"
      "lfrom docLine + llength docLine \<le> length (doc v)"
    using line_Inr [OF n] by blast
  have "go v input =
      Inr (v\<lparr>selection := cursor (lfrom docLine + min (column cl) (llength docLine)),
             dialogField := False, hasFocus := True\<rparr>)"
    using e s(1) d(1) by (simp add: go_def c)
  moreover have "lfrom docLine + min (column cl) (llength docLine) \<le> length (doc v)"
    using d(3) by simp
  ultimately show ?thesis using e s(1) d n c by auto
qed

theorem goto_position_in_document_witness:
  "grammar ''2:7''
   \<and> head (main (selection
        \<lparr>doc = ''hello\<newline>wor'', selection = cursor 3, dialogField = True, hasFocus = False\<rparr>))
       \<le> length (doc
        \<lparr>doc = ''hello\<newline>wor'', selection = cursor 3, dialogField = True, hasFocus = False\<rparr>)
   \<and> go \<lparr>doc = ''hello\<newline>wor'', selection = cursor 3, dialogField = True, hasFocus = False\<rparr> ''2:7''
       = Inr \<lparr>doc = ''hello\<newline>wor'', selection = cursor 9, dialogField = False, hasFocus = True\<rparr>
   \<and> 9 \<le> length ''hello\<newline>wor''"
proof -
  let ?v = "\<lparr>doc = ''hello\<newline>wor'', selection = cursor 3, dialogField = True, hasFocus = False\<rparr>"
  have e: "exec_re ''2:7'' = Some (None, Some ''2'', Some '':7'', None)" by code_simp
  have g: "grammar ''2:7''" by (rule exec_re_grammar [OF e])
  have h: "head (main (selection ?v)) \<le> length (doc ?v)" by (simp add: cursor_def)
  have l: "lineAt ''hello\<newline>wor'' 3 = Inr \<lparr>lfrom = 0, lto = 5, lnumber = 1, ltext = ''hello''\<rparr>"
    by code_simp
  have n: "lines ''hello\<newline>wor'' = 2" by code_simp
  have t: "target_line None (Some ''2'') None 1 2 = Num 2" by code_simp
  have m: "Math_max (Num 1) (Math_min (Num 2) (Num 2)) = Num 2"
    by (simp add: Math_max_def Math_min_def)
  have d: "line ''hello\<newline>wor'' (Num 2) = Inr \<lparr>lfrom = 6, lto = 9, lnumber = 2, ltext = ''wor''\<rparr>"
    by code_simp
  have c: "column (Some '':7'') = 7" by code_simp
  show ?thesis
    using goto_position_in_document [OF g h] g e l n t m d c
    by (auto simp: cursor_def llength_def)
qed

text \<open>
  C5. An input outside the language of the grammar is rejected: \<open>go\<close> returns the view
  it was given, with the selection, the dialog and the focus as they were.
\<close>

theorem goto_rejects_mismatch: "\<not> grammar input \<Longrightarrow> go v input = Inr v"
  by (simp add: go_def exec_re_None_iff [symmetric])

theorem goto_rejects_mismatch_witness:
  "\<not> grammar ''abc'' \<and>
   go \<lparr>doc = ''one'', selection = cursor 2, dialogField = True, hasFocus = False\<rparr> ''abc''
     = Inr \<lparr>doc = ''one'', selection = cursor 2, dialogField = True, hasFocus = False\<rparr>"
proof -
  have "exec_re ''abc'' = None"
    by (simp add: exec_re_def opt_sign_def opt_digits_def opt_column_def opt_percent_def
        is_digit_def)
  then have n: "\<not> grammar ''abc''" by (simp add: exec_re_None_iff)
  show ?thesis using n goto_rejects_mismatch [OF n] by simp
qed

section \<open>Properties of the match collection\<close>

text \<open>
  The loops either run to the end, and then they have pushed exactly what the matches
  push without a limit, or they leave early, and then what the matches push exceeds the
  limit.
\<close>

lemma match_decorations_Cons:
  "match_decorations d r check ((f, t) # ms) =
     (if whole_word d check f t then pushed r check f t else []) @ match_decorations d r check ms"
  by (simp add: match_decorations_def)

lemma match_decorations_Nil: "match_decorations d r check [] = []"
  by (simp add: match_decorations_def)

lemma match_decorations_append:
  "match_decorations d r check (ms @ ms') =
     match_decorations d r check ms @ match_decorations d r check ms'"
  by (simp add: match_decorations_def)

lemma cursor_loop_Some:
  "cursor_loop d maxM r check ms deco = Some out \<Longrightarrow>
     out = deco @ match_decorations d r check ms
     \<and> (match_decorations d r check ms \<noteq> [] \<longrightarrow> int (length out) \<le> maxM)"
proof (induction ms arbitrary: deco)
  case Nil
  then show ?case by (simp add: match_decorations_Nil)
next
  case (Cons m ms)
  obtain f t where m: "m = (f, t)" by (cases m)
  show ?case
  proof (cases "whole_word d check f t")
    case False
    with Cons m show ?thesis by (simp add: match_decorations_Cons)
  next
    case True
    let ?deco' = "deco @ pushed r check f t"
    from Cons.prems m True have le: "\<not> int (length ?deco') > maxM"
      and rec: "cursor_loop d maxM r check ms ?deco' = Some out"
      by (auto simp: Let_def split: if_splits)
    from Cons.IH [OF rec]
    have out: "out = ?deco' @ match_decorations d r check ms"
      and b: "match_decorations d r check ms \<noteq> [] \<longrightarrow> int (length out) \<le> maxM"
      by blast+
    show ?thesis
    proof (cases "match_decorations d r check ms = []")
      case True
      with out le m \<open>whole_word d check f t\<close> show ?thesis
        by (simp add: match_decorations_Cons)
    next
      case False
      with out b m \<open>whole_word d check f t\<close> show ?thesis
        by (simp add: match_decorations_Cons)
    qed
  qed
qed

lemma cursor_loop_None:
  "cursor_loop d maxM r check ms deco = None \<Longrightarrow>
     int (length (deco @ match_decorations d r check ms)) > maxM"
proof (induction ms arbitrary: deco)
  case Nil
  then show ?case by simp
next
  case (Cons m ms)
  obtain f t where m: "m = (f, t)" by (cases m)
  show ?case
  proof (cases "whole_word d check f t")
    case False
    with Cons m show ?thesis by (simp add: match_decorations_Cons)
  next
    case True
    let ?deco' = "deco @ pushed r check f t"
    show ?thesis
    proof (cases "int (length ?deco') > maxM")
      case True
      with m \<open>whole_word d check f t\<close> show ?thesis
        by (simp add: match_decorations_Cons)
    next
      case False
      with Cons.prems m \<open>whole_word d check f t\<close>
      have "cursor_loop d maxM r check ms ?deco' = None" by (simp add: Let_def)
      from Cons.IH [OF this] m \<open>whole_word d check f t\<close> show ?thesis
        by (simp add: match_decorations_Cons)
    qed
  qed
qed

lemma viewport_matches_Cons:
  "viewport_matches d query ((pf, pt) # parts) =
     SearchCursor d query pf pt @ viewport_matches d query parts"
  by (simp add: viewport_matches_def)

lemma parts_loop_Some:
  "parts_loop d maxM r check query parts deco = Some out \<Longrightarrow>
     out = deco @ match_decorations d r check (viewport_matches d query parts)
     \<and> (match_decorations d r check (viewport_matches d query parts) \<noteq> []
          \<longrightarrow> int (length out) \<le> maxM)"
proof (induction parts arbitrary: deco)
  case Nil
  then show ?case by (simp add: viewport_matches_def match_decorations_Nil)
next
  case (Cons p parts)
  obtain pf pt where p: "p = (pf, pt)" by (cases p)
  from Cons.prems p obtain deco' where
    c: "cursor_loop d maxM r check (SearchCursor d query pf pt) deco = Some deco'"
    and rec: "parts_loop d maxM r check query parts deco' = Some out"
    by (auto split: option.splits)
  note C = cursor_loop_Some [OF c] and R = Cons.IH [OF rec]
  show ?case
  proof (cases "match_decorations d r check (viewport_matches d query parts) = []")
    case True
    with C R p show ?thesis
      by (auto simp: viewport_matches_Cons match_decorations_append)
  next
    case False
    with C R p show ?thesis
      by (auto simp: viewport_matches_Cons match_decorations_append)
  qed
qed

lemma parts_loop_None:
  "parts_loop d maxM r check query parts deco = None \<Longrightarrow>
     int (length (deco @ match_decorations d r check (viewport_matches d query parts))) > maxM"
proof (induction parts arbitrary: deco)
  case Nil
  then show ?case by simp
next
  case (Cons p parts)
  obtain pf pt where p: "p = (pf, pt)" by (cases p)
  show ?case
  proof (cases "cursor_loop d maxM r check (SearchCursor d query pf pt) deco")
    case None
    from cursor_loop_None [OF None] p show ?thesis
      by (simp add: viewport_matches_Cons match_decorations_append)
  next
    case (Some deco')
    with Cons.prems p have "parts_loop d maxM r check query parts deco' = None" by simp
    from Cons.IH [OF this] cursor_loop_Some [OF Some] p show ?thesis
      by (simp add: viewport_matches_Cons match_decorations_append)
  qed
qed

lemma collect_matches_eq:
  "collect_matches v query check =
     (if int (length (all_decorations v query check)) > maxMatches (highlightConfig v)
      then [] else all_decorations v query check)"
proof (cases "parts_loop (doc v) (maxMatches (highlightConfig v)) (main (selection v))
                 check query (visibleRanges v) []")
  case None
  from parts_loop_None [OF None] show ?thesis
    by (simp add: collect_matches_def None all_decorations_def)
next
  case (Some out)
  from parts_loop_Some [OF Some] show ?thesis
    by (auto simp: collect_matches_def Some all_decorations_def)
qed

lemma pushed_span:
  "dc \<in> set (pushed r check f t) \<Longrightarrow> deco_from dc = f \<and> deco_to dc = t"
  by (auto simp: pushed_def split: if_splits)

lemma match_decorations_member:
  "dc \<in> set (match_decorations d r check ms) \<Longrightarrow>
     whole_word d check (deco_from dc) (deco_to dc) \<and> (deco_from dc, deco_to dc) \<in> set ms"
  by (induction ms) (auto simp: match_decorations_def dest: pushed_span split: if_splits)

lemma collect_matches_subset:
  "dc \<in> set (collect_matches v query check) \<Longrightarrow> dc \<in> set (all_decorations v query check)"
  by (simp add: collect_matches_eq split: if_splits)

lemma collect_matches_whole_word:
  "dc \<in> set (collect_matches v query check) \<Longrightarrow>
     whole_word (doc v) check (deco_from dc) (deco_to dc)"
  using collect_matches_subset [of dc v query check]
    match_decorations_member [of dc "doc v" "main (selection v)" check]
  by (auto simp: all_decorations_def)

text \<open>Without a classifier every match outside the selection is marked, and no other.\<close>

lemma match_decorations_no_check:
  "match_decorations d r None ms =
     map (\<lambda>(from', to'). matchDeco from' to')
       (filter (\<lambda>(from', to'). from' \<ge> range_to r \<or> to' \<le> range_from r) ms)"
  by (induction ms) (auto simp: match_decorations_def whole_word_def pushed_def split: if_splits)

section \<open>Properties of the word around the cursor\<close>

lemma word_from_le: "word_from str check p \<le> p"
proof (induction str check p rule: word_from.induct)
  case (1 str check p)
  show ?case
  proof (cases "p > 0 \<and> check (slice str (findClusterBreak str p False) p) = Word")
    case True
    then have "word_from str check p = word_from str check (findClusterBreak str p False)"
      by (subst word_from.simps) (simp add: Let_def)
    moreover have "word_from str check (findClusterBreak str p False) \<le> findClusterBreak str p False"
      using True 1 by simp
    ultimately show ?thesis by (simp add: findClusterBreak_def)
  next
    case False
    then have "word_from str check p = p"
      by (subst word_from.simps) (auto simp: Let_def)
    then show ?thesis by simp
  qed
qed

lemma word_to_bounds: "p \<le> word_to str check p \<and> word_to str check p \<le> max p (length str)"
proof (induction str check p rule: word_to.induct)
  case (1 str check p)
  show ?case
  proof (cases "p < length str \<and> check (slice str p (findClusterBreak str p True)) = Word")
    case True
    then have "word_to str check p = word_to str check (findClusterBreak str p True)"
      by (subst word_to.simps) (simp add: Let_def)
    moreover have "findClusterBreak str p True \<le> word_to str check (findClusterBreak str p True)
        \<and> word_to str check (findClusterBreak str p True)
            \<le> max (findClusterBreak str p True) (length str)"
      using True 1 by simp
    ultimately show ?thesis using True by (simp add: findClusterBreak_def)
  next
    case False
    then have "word_to str check p = p"
      by (subst word_to.simps) (auto simp: Let_def)
    then show ?thesis by simp
  qed
qed

lemma wordAt_Some_nonempty:
  assumes "wordAt d pos check = Inr (Some q)"
  shows "q \<noteq> []"
proof -
  have p: "pos \<le> length d"
    using assms by (auto simp: wordAt_def lineAt_def split: if_splits)
  obtain L where L: "lineAt d pos = Inr L" "lfrom L \<le> pos" "pos \<le> lto L"
      "lto L = lfrom L + length (ltext L)"
    using lineAt_Inr [OF p] by blast
  let ?p = "pos - lfrom L"
  let ?f = "word_from (ltext L) check ?p" and ?t = "word_to (ltext L) check ?p"
  have q: "?f \<noteq> ?t" "q = slice (ltext L) ?f ?t"
    using assms L(1) by (auto simp: wordAt_def Let_def split: if_splits)
  have "?p \<le> length (ltext L)" using L by simp
  then have "?f < ?t" "?t \<le> length (ltext L)"
    using q(1) word_from_le [of "ltext L" check ?p] word_to_bounds [of ?p "ltext L" check]
    by simp_all
  then show ?thesis using q(2) by (simp add: slice_def)
qed

section \<open>The selection-match highlighter: what \<open>getDeco\<close> does\<close>

text \<open>
  C7. The match collection is all or nothing: it returns every decoration the matches in
  the visible ranges push, unless these are more than \<open>maxMatches\<close>, and then it returns
  none. So a result of \<open>getDeco\<close> that is not empty never has more than \<open>maxMatches\<close>
  decorations.
\<close>

theorem maxMatches_all_or_nothing:
  "collect_matches v query check =
     (if int (length (all_decorations v query check)) > maxMatches (highlightConfig v)
      then [] else all_decorations v query check)
   \<and> (getDeco v = Inr ds \<longrightarrow> ds = [] \<or> int (length ds) \<le> maxMatches (highlightConfig v))"
proof -
  have c: "\<And>q c. collect_matches v q c = [] \<or>
      int (length (collect_matches v q c)) \<le> maxMatches (highlightConfig v)"
    by (simp add: collect_matches_eq)
  have "getDeco v = Inr ds \<longrightarrow> ds = [] \<or> int (length ds) \<le> maxMatches (highlightConfig v)"
    using c by (auto simp: getDeco_def Let_def split: if_splits sum.splits option.splits)
  then show ?thesis by (simp add: collect_matches_eq)
qed

theorem maxMatches_all_or_nothing_witness:
  "getDeco \<lparr>doc = ''foo foo foo'', selection = \<lparr>main = \<lparr>anchor = 0, head = 3\<rparr>, others = []\<rparr>,
      highlightConfig = \<lparr>highlightWordAroundCursor = False, minSelectionLength = 1, maxMatches = 2\<rparr>,
      charCategorizer = (\<lambda>pos. categorize), visibleRanges = [(0, 11)]\<rparr>
     = Inr [matchDeco 4 7, matchDeco 8 11]
   \<and> getDeco \<lparr>doc = ''foo foo foo'', selection = \<lparr>main = \<lparr>anchor = 0, head = 3\<rparr>, others = []\<rparr>,
      highlightConfig = \<lparr>highlightWordAroundCursor = False, minSelectionLength = 1, maxMatches = 1\<rparr>,
      charCategorizer = (\<lambda>pos. categorize), visibleRanges = [(0, 11)]\<rparr>
     = Inr []
   \<and> all_decorations \<lparr>doc = ''foo foo foo'', selection = \<lparr>main = \<lparr>anchor = 0, head = 3\<rparr>, others = []\<rparr>,
      highlightConfig = \<lparr>highlightWordAroundCursor = False, minSelectionLength = 1, maxMatches = 1\<rparr>,
      charCategorizer = (\<lambda>pos. categorize), visibleRanges = [(0, 11)]\<rparr> ''foo'' None
     = [matchDeco 4 7, matchDeco 8 11]"
proof -
  let ?v2 = "\<lparr>doc = ''foo foo foo'', selection = \<lparr>main = \<lparr>anchor = 0, head = 3\<rparr>, others = []\<rparr>,
      highlightConfig = \<lparr>highlightWordAroundCursor = False, minSelectionLength = 1, maxMatches = 2\<rparr>,
      charCategorizer = (\<lambda>pos. categorize), visibleRanges = [(0, 11)]\<rparr>"
  let ?v1 = "\<lparr>doc = ''foo foo foo'', selection = \<lparr>main = \<lparr>anchor = 0, head = 3\<rparr>, others = []\<rparr>,
      highlightConfig = \<lparr>highlightWordAroundCursor = False, minSelectionLength = 1, maxMatches = 1\<rparr>,
      charCategorizer = (\<lambda>pos. categorize), visibleRanges = [(0, 11)]\<rparr>"
  have a: "all_decorations ?v1 ''foo'' None = [matchDeco 4 7, matchDeco 8 11]" by code_simp
  have g2: "getDeco ?v2 = Inr [matchDeco 4 7, matchDeco 8 11]" by code_simp
  have q: "trim (sliceDoc ''foo foo foo'' 0 3) = ''foo''" by code_simp
  have c1: "collect_matches ?v1 ''foo'' None = []"
    using maxMatches_all_or_nothing [of ?v1 "''foo''" None "[]"] a by simp
  have g1: "getDeco ?v1 = Inr []"
    using c1 q by (simp add: getDeco_def ranges_def range_empty_def range_from_def range_to_def)
  show ?thesis
    using maxMatches_all_or_nothing [of ?v2 "''foo''" None "[matchDeco 4 7, matchDeco 8 11]"] g2 g1 a
    by simp
qed

text \<open>
  C8. With a classifier (the selection is a cursor and the word around it is the query),
  every decoration of the result covers a span whose neighbours are not word characters:
  before its start there is the start of the document or a character that is not a word
  character, after its end the end of the document or a character that is not a word
  character. A span that fails this test is decorated neither as a match nor as the main
  match.
\<close>

theorem whole_word_matches_only:
  assumes "getDeco v = Inr ds" and "range_empty (main (selection v))"
    and "check = charCategorizer v (head (main (selection v)))"
  shows "(\<forall>dc\<in>set ds.
            (deco_from dc = 0 \<or> check (sliceDoc (doc v) (deco_from dc - 1) (deco_from dc)) \<noteq> Word)
          \<and> (deco_to dc = length (doc v)
               \<or> check (sliceDoc (doc v) (deco_to dc) (deco_to dc + 1)) \<noteq> Word))
       \<and> (\<forall>from' to'.
            \<not> ((from' = 0 \<or> check (sliceDoc (doc v) (from' - 1) from') \<noteq> Word)
               \<and> (to' = length (doc v) \<or> check (sliceDoc (doc v) to' (to' + 1)) \<noteq> Word))
            \<longrightarrow> matchDeco from' to' \<notin> set ds \<and> mainMatchDeco from' to' \<notin> set ds)"
proof -
  have m: "whole_word (doc v) (Some check) (deco_from dc) (deco_to dc)" if "dc \<in> set ds" for dc
  proof -
    from assms(1,2) that obtain query where "dc \<in> set (collect_matches v query (Some check))"
      unfolding assms(3)
      by (auto simp: getDeco_def Let_def split: if_splits sum.splits option.splits)
    then show ?thesis by (rule collect_matches_whole_word)
  qed
  have a: "\<forall>dc\<in>set ds.
            (deco_from dc = 0 \<or> check (sliceDoc (doc v) (deco_from dc - 1) (deco_from dc)) \<noteq> Word)
          \<and> (deco_to dc = length (doc v)
               \<or> check (sliceDoc (doc v) (deco_to dc) (deco_to dc + 1)) \<noteq> Word)"
    using m by (simp add: whole_word_def)
  have b: "matchDeco f t \<notin> set ds \<and> mainMatchDeco f t \<notin> set ds"
    if "\<not> ((f = 0 \<or> check (sliceDoc (doc v) (f - 1) f) \<noteq> Word)
               \<and> (t = length (doc v) \<or> check (sliceDoc (doc v) t (t + 1)) \<noteq> Word))" for f t
    using that m [of "matchDeco f t"] m [of "mainMatchDeco f t"] by (auto simp: whole_word_def)
  show ?thesis using a b by blast
qed

theorem whole_word_matches_only_witness:
  "getDeco \<lparr>doc = ''foo foobar foo'', selection = cursor 1,
      highlightConfig = \<lparr>highlightWordAroundCursor = True, minSelectionLength = 1, maxMatches = 100\<rparr>,
      charCategorizer = (\<lambda>pos. categorize), visibleRanges = [(0, 14)]\<rparr>
     = Inr [mainMatchDeco 0 3, matchDeco 11 14]
   \<and> range_empty (main (cursor 1))
   \<and> SearchCursor ''foo foobar foo'' ''foo'' 0 14 = [(0, 3), (4, 7), (11, 14)]
   \<and> categorize (sliceDoc ''foo foobar foo'' 7 8) = Word
   \<and> matchDeco 4 7 \<notin> set [mainMatchDeco 0 3, matchDeco 11 14]
   \<and> mainMatchDeco 4 7 \<notin> set [mainMatchDeco 0 3, matchDeco 11 14]
   \<and> categorize (sliceDoc ''foo foobar foo'' 3 4) \<noteq> Word
   \<and> categorize (sliceDoc ''foo foobar foo'' 10 11) \<noteq> Word"
proof -
  let ?v = "\<lparr>doc = ''foo foobar foo'', selection = cursor 1,
      highlightConfig = \<lparr>highlightWordAroundCursor = True, minSelectionLength = 1, maxMatches = 100\<rparr>,
      charCategorizer = (\<lambda>pos. categorize), visibleRanges = [(0, 14)]\<rparr>"
  have g: "getDeco ?v = Inr [mainMatchDeco 0 3, matchDeco 11 14]" by code_simp
  have e: "range_empty (main (selection ?v))"
    by (simp add: cursor_def range_empty_def range_from_def range_to_def)
  have s: "SearchCursor ''foo foobar foo'' ''foo'' 0 14 = [(0, 3), (4, 7), (11, 14)]" by code_simp
  have c: "categorize (sliceDoc ''foo foobar foo'' 7 8) = Word" by code_simp
  have "categorize (sliceDoc ''foo foobar foo'' 3 4) \<noteq> Word
      \<and> categorize (sliceDoc ''foo foobar foo'' 10 11) \<noteq> Word"
    using whole_word_matches_only [OF g e refl] by simp
  with g e s c show ?thesis by simp
qed

text \<open>
  The cursor branch of \<open>getDeco\<close>, and the match collection, which does not read
  \<open>minSelectionLength\<close>.
\<close>

lemma getDeco_cursor:
  assumes "others (selection v) = []" and "range_empty (main (selection v))"
    and "highlightWordAroundCursor (highlightConfig v)"
    and "wordAt (doc v) (head (main (selection v)))
           (charCategorizer v (head (main (selection v)))) = Inr (Some query)"
  shows "getDeco v =
           Inr (collect_matches v query (Some (charCategorizer v (head (main (selection v))))))"
  using assms wordAt_Some_nonempty [OF assms(4)] by (simp add: getDeco_def ranges_def Let_def)

lemma collect_matches_minSelectionLength:
  "collect_matches (v\<lparr>highlightConfig := (highlightConfig v)\<lparr>minSelectionLength := m\<rparr>\<rparr>) query check
     = collect_matches v query check"
  by (simp add: collect_matches_def)

text \<open>
  \<open>getDeco\<close> fails only through \<open>lineAt\<close>: with the head of the main range inside the
  document it returns a decoration set.
\<close>

lemma getDeco_returns:
  assumes "head (main (selection v)) \<le> length (doc v)"
  shows "\<exists>ds. getDeco v = Inr ds"
proof -
  obtain L where "lineAt (doc v) (head (main (selection v))) = Inr L"
    using lineAt_Inr [OF assms] by blast
  then have "\<exists>w. wordAt (doc v) (head (main (selection v)))
      (charCategorizer v (head (main (selection v)))) = Inr w"
    by (simp add: wordAt_def Let_def)
  then show ?thesis
    by (auto simp: getDeco_def Let_def split: option.splits)
qed

text \<open>
  C6. For a single selection that is not empty, \<open>getDeco\<close> returns the collected
  matches of the trimmed selected text exactly when the length of the selection is at
  least \<open>minSelectionLength\<close> and at most 200 and the trimmed text is not empty;
  otherwise it returns no decoration. When it collects and the matches in the visible
  ranges are not more than \<open>maxMatches\<close>, every match that lies outside the selection
  is marked.
\<close>

theorem selection_length_bounds:
  assumes "others (selection v) = []" and "\<not> range_empty (main (selection v))"
    and "r = main (selection v)" and "query = trim (sliceDoc (doc v) (range_from r) (range_to r))"
  shows "getDeco v =
           Inr (if minSelectionLength (highlightConfig v) \<le> int (range_to r - range_from r)
                    \<and> range_to r - range_from r \<le> 200 \<and> query \<noteq> []
                then collect_matches v query None else [])
       \<and> (minSelectionLength (highlightConfig v) \<le> int (range_to r - range_from r)
            \<and> range_to r - range_from r \<le> 200 \<and> query \<noteq> []
            \<and> int (length (viewport_matches (doc v) query (visibleRanges v)))
                 \<le> maxMatches (highlightConfig v)
          \<longrightarrow> getDeco v =
                Inr (map (\<lambda>(from', to'). matchDeco from' to')
                      (filter (\<lambda>(from', to'). from' \<ge> range_to r \<or> to' \<le> range_from r)
                         (viewport_matches (doc v) query (visibleRanges v)))))"
proof -
  let ?ms = "viewport_matches (doc v) query (visibleRanges v)"
  let ?D = "map (\<lambda>(from', to'). matchDeco from' to')
              (filter (\<lambda>(from', to'). from' \<ge> range_to r \<or> to' \<le> range_from r) ?ms)"
  have g: "getDeco v =
           Inr (if minSelectionLength (highlightConfig v) \<le> int (range_to r - range_from r)
                    \<and> range_to r - range_from r \<le> 200 \<and> query \<noteq> []
                then collect_matches v query None else [])"
    using assms by (simp add: getDeco_def ranges_def Let_def)
  have a: "all_decorations v query None = ?D"
    by (simp add: all_decorations_def match_decorations_no_check assms(3))
  have "length ?D \<le> length ?ms" by simp
  then have "collect_matches v query None = ?D"
    if "int (length ?ms) \<le> maxMatches (highlightConfig v)"
    using that unfolding collect_matches_eq a by (simp del: length_map length_filter_le)
  with g show ?thesis by simp
qed

text \<open>
  The boundaries: a selection of 200 characters (here a letter followed by blanks, the
  query being the letter) is highlighted when \<open>minSelectionLength\<close> is 200 and not when
  it is 201, and a selection of 201 characters is not highlighted.
\<close>

theorem selection_length_bounds_witness:
  "others (selection
      \<lparr>doc = CHR ''a'' # replicate 199 CHR '' '' @ ''a'',
       selection = \<lparr>main = \<lparr>anchor = 0, head = 200\<rparr>, others = []\<rparr>,
       highlightConfig =
         \<lparr>highlightWordAroundCursor = False, minSelectionLength = 200, maxMatches = 100\<rparr>,
       charCategorizer = (\<lambda>pos. categorize), visibleRanges = [(0, 201)]\<rparr>) = []
   \<and> \<not> range_empty \<lparr>anchor = 0, head = 200\<rparr>
   \<and> getDeco
      \<lparr>doc = CHR ''a'' # replicate 199 CHR '' '' @ ''a'',
       selection = \<lparr>main = \<lparr>anchor = 0, head = 200\<rparr>, others = []\<rparr>,
       highlightConfig =
         \<lparr>highlightWordAroundCursor = False, minSelectionLength = 200, maxMatches = 100\<rparr>,
       charCategorizer = (\<lambda>pos. categorize), visibleRanges = [(0, 201)]\<rparr>
     = Inr [matchDeco 200 201]
   \<and> getDeco
      \<lparr>doc = CHR ''a'' # replicate 199 CHR '' '' @ ''a'',
       selection = \<lparr>main = \<lparr>anchor = 0, head = 200\<rparr>, others = []\<rparr>,
       highlightConfig =
         \<lparr>highlightWordAroundCursor = False, minSelectionLength = 201, maxMatches = 100\<rparr>,
       charCategorizer = (\<lambda>pos. categorize), visibleRanges = [(0, 201)]\<rparr>
     = Inr []
   \<and> getDeco
      \<lparr>doc = CHR ''a'' # replicate 200 CHR '' '' @ ''a'',
       selection = \<lparr>main = \<lparr>anchor = 0, head = 201\<rparr>, others = []\<rparr>,
       highlightConfig =
         \<lparr>highlightWordAroundCursor = False, minSelectionLength = 1, maxMatches = 100\<rparr>,
       charCategorizer = (\<lambda>pos. categorize), visibleRanges = [(0, 202)]\<rparr>
     = Inr []"
proof -
  let ?d = "CHR ''a'' # replicate 199 CHR '' '' @ ''a''"
  let ?v = "\<lambda>m. \<lparr>doc = ?d,
       selection = \<lparr>main = \<lparr>anchor = 0, head = 200\<rparr>, others = []\<rparr>,
       highlightConfig =
         \<lparr>highlightWordAroundCursor = False, minSelectionLength = m, maxMatches = 100\<rparr>,
       charCategorizer = (\<lambda>pos. categorize), visibleRanges = [(0, 201)]\<rparr>"
  let ?w = "\<lparr>doc = CHR ''a'' # replicate 200 CHR '' '' @ ''a'',
       selection = \<lparr>main = \<lparr>anchor = 0, head = 201\<rparr>, others = []\<rparr>,
       highlightConfig =
         \<lparr>highlightWordAroundCursor = False, minSelectionLength = 1, maxMatches = 100\<rparr>,
       charCategorizer = (\<lambda>pos. categorize), visibleRanges = [(0, 202)]\<rparr>"
  have r: "range_from \<lparr>anchor = 0, head = 200\<rparr> = 0" "range_to \<lparr>anchor = 0, head = 200\<rparr> = 200"
    "range_from \<lparr>anchor = 0, head = 201\<rparr> = 0" "range_to \<lparr>anchor = 0, head = 201\<rparr> = 201"
    by (simp_all add: range_from_def range_to_def)
  have e: "\<not> range_empty \<lparr>anchor = 0, head = 200\<rparr>" "\<not> range_empty \<lparr>anchor = 0, head = 201\<rparr>"
    by (simp_all add: range_empty_def r)
  have q: "trim (sliceDoc ?d 0 200) = ''a''" by code_simp
  have s: "SearchCursor ?d ''a'' 0 201 = [(0, 1), (200, 201)]" by code_simp
  have c: "collect_matches (?v 200) ''a'' None = [matchDeco 200 201]"
    by (simp add: collect_matches_def s whole_word_def pushed_def r)
  have g200: "getDeco (?v 200) = Inr [matchDeco 200 201]"
    using selection_length_bounds [where v = "?v 200", OF _ _ refl refl] e by (simp add: r q c)
  have g201: "getDeco (?v 201) = Inr []"
    using selection_length_bounds [where v = "?v 201", OF _ _ refl refl] e by (simp add: r)
  have w: "getDeco ?w = Inr []"
    using selection_length_bounds [where v = ?w, OF _ _ refl refl] e by (simp add: r)
  show ?thesis using e g200 g201 w by simp
qed

text \<open>
  C10. For a single cursor with \<open>highlightWordAroundCursor\<close> on, the word that \<open>wordAt\<close>
  finds is the query whatever its length: \<open>getDeco\<close> returns the collected matches of
  that word, and no value of \<open>minSelectionLength\<close> changes the result.
\<close>

theorem cursor_word_any_length:
  assumes "others (selection v) = []" and "range_empty (main (selection v))"
    and "highlightWordAroundCursor (highlightConfig v)"
    and "wordAt (doc v) (head (main (selection v)))
           (charCategorizer v (head (main (selection v)))) = Inr (Some query)"
  shows "getDeco v =
           Inr (collect_matches v query (Some (charCategorizer v (head (main (selection v))))))
       \<and> getDeco (v\<lparr>highlightConfig := (highlightConfig v)\<lparr>minSelectionLength := m\<rparr>\<rparr>) = getDeco v"
proof -
  let ?v' = "v\<lparr>highlightConfig := (highlightConfig v)\<lparr>minSelectionLength := m\<rparr>\<rparr>"
  have "getDeco ?v' =
      Inr (collect_matches ?v' query (Some (charCategorizer ?v' (head (main (selection ?v'))))))"
    by (rule getDeco_cursor) (use assms in simp_all)
  then show ?thesis
    using getDeco_cursor [OF assms] by (simp add: collect_matches_minSelectionLength)
qed

text \<open>
  A word of 201 characters around the cursor is highlighted, also with a
  \<open>minSelectionLength\<close> of 500; a one-letter word is highlighted with the same setting.
\<close>

theorem cursor_word_any_length_witness:
  "wordAt (replicate 201 CHR ''a'') 5 categorize = Inr (Some (replicate 201 CHR ''a''))
   \<and> getDeco
      \<lparr>doc = replicate 201 CHR ''a'', selection = cursor 5,
       highlightConfig =
         \<lparr>highlightWordAroundCursor = True, minSelectionLength = 500, maxMatches = 100\<rparr>,
       charCategorizer = (\<lambda>pos. categorize), visibleRanges = [(0, 201)]\<rparr>
     = Inr [mainMatchDeco 0 201]
   \<and> getDeco
      \<lparr>doc = ''a b a'', selection = cursor 0,
       highlightConfig =
         \<lparr>highlightWordAroundCursor = True, minSelectionLength = 500, maxMatches = 100\<rparr>,
       charCategorizer = (\<lambda>pos. categorize), visibleRanges = [(0, 5)]\<rparr>
     = Inr [mainMatchDeco 0 1, matchDeco 4 5]"
proof -
  let ?d = "replicate 201 CHR ''a''"
  let ?v = "\<lparr>doc = ?d, selection = cursor 5,
       highlightConfig =
         \<lparr>highlightWordAroundCursor = True, minSelectionLength = 500, maxMatches = 100\<rparr>,
       charCategorizer = (\<lambda>pos. categorize), visibleRanges = [(0, 201)]\<rparr>"
  have w: "wordAt ?d 5 categorize = Inr (Some ?d)" by code_simp
  have s: "SearchCursor ?d ?d 0 201 = [(0, 201)]" by code_simp
  have l: "length ?d = 201" by simp
  have c: "collect_matches ?v ?d (Some categorize) = [mainMatchDeco 0 201]"
    by (simp add: collect_matches_def s whole_word_def pushed_def cursor_def
        range_from_def range_to_def)
  have e: "range_empty (main (selection ?v))"
    by (simp add: cursor_def range_empty_def range_from_def range_to_def)
  have g: "getDeco ?v = Inr [mainMatchDeco 0 201]"
    using cursor_word_any_length [of ?v ?d 500] e w c
    by (simp add: cursor_def)
  have h: "getDeco
      \<lparr>doc = ''a b a'', selection = cursor 0,
       highlightConfig =
         \<lparr>highlightWordAroundCursor = True, minSelectionLength = 500, maxMatches = 100\<rparr>,
       charCategorizer = (\<lambda>pos. categorize), visibleRanges = [(0, 5)]\<rparr>
     = Inr [mainMatchDeco 0 1, matchDeco 4 5]"
    by code_simp
  show ?thesis using w g h by simp
qed

text \<open>
  C1, as the code has it. In the document \<open>foo bar foo\<close>, all of it visible, with the
  defaults (\<open>minSelectionLength\<close> 1): for the selection from 8 to 11 there is no
  classifier and the result is the single regular decoration from 0 to 3, the match
  from 8 to 11 being the selection itself. With a classifier the loops, run for the range
  from 8 to 11, give the regular decoration from 0 to 3 and the main decoration from 8 to
  11; \<open>getDeco\<close> has a classifier only for a cursor, and gives these two for a cursor
  at 9 with \<open>highlightWordAroundCursor\<close> on.
\<close>

theorem scenario_foo_bar_foo:
  "getDeco
      \<lparr>doc = ''foo bar foo'', selection = \<lparr>main = \<lparr>anchor = 8, head = 11\<rparr>, others = []\<rparr>,
       highlightConfig = defaultHighlightOptions,
       charCategorizer = (\<lambda>pos. categorize), visibleRanges = [(0, 11)]\<rparr>
     = Inr [matchDeco 0 3]
   \<and> parts_loop ''foo bar foo'' 100 \<lparr>anchor = 8, head = 11\<rparr> (Some categorize) ''foo''
        [(0, 11)] []
     = Some [matchDeco 0 3, mainMatchDeco 8 11]
   \<and> getDeco
      \<lparr>doc = ''foo bar foo'', selection = cursor 9,
       highlightConfig = defaultHighlightOptions\<lparr>highlightWordAroundCursor := True\<rparr>,
       charCategorizer = (\<lambda>pos. categorize), visibleRanges = [(0, 11)]\<rparr>
     = Inr [matchDeco 0 3, mainMatchDeco 8 11]"
  by code_simp

text \<open>
  C1, as the specification states it, fails: for the selection from 8 to 11 the result
  has no decoration from 8 to 11.
\<close>

theorem scenario_selection_not_decorated:
  "getDeco
      \<lparr>doc = ''foo bar foo'', selection = \<lparr>main = \<lparr>anchor = 8, head = 11\<rparr>, others = []\<rparr>,
       highlightConfig = defaultHighlightOptions,
       charCategorizer = (\<lambda>pos. categorize), visibleRanges = [(0, 11)]\<rparr>
     = Inr [matchDeco 0 3]
   \<and> matchDeco 8 11 \<notin> set [matchDeco 0 3]"
  by code_simp



end
